theory Spec2Isabelle
  imports Main
begin

section \<open>The question-block parser of the quiz-assignment scripts\<close>

text \<open>
  This theory embeds the function \<^verbatim>\<open>parse_bloco\<close> of
  \<^verbatim>\<open>classroom_criar_atividade_com_teste_V5.py\<close> (lines 133-232) and of
  \<^verbatim>\<open>classroom_criar_atividade_com_teste_V3.py\<close> (lines 137-246).

  A Python \<^verbatim>\<open>str\<close> is a sequence of Unicode code points. It is modelled as a
  list of integers, one for each code point, so every text Python can hold
  is a value of the model. The character classes below are those of Python 3.11
  (Unicode 14.0).
\<close>

subsection \<open>Python's string primitives\<close>

type_synonym str = "int list"

text \<open>A text written with the characters of an Isabelle string literal.\<close>

definition ustr :: "string \<Rightarrow> str" where
  "ustr s = map of_char s"

text \<open>
  \<^verbatim>\<open>str.isspace\<close>, which is also what \<^verbatim>\<open>str.strip()\<close> removes and what
  \<^verbatim>\<open>\s\<close> matches in a \<^verbatim>\<open>str\<close> pattern: U+0009 to U+000D, U+001C to U+0020,
  U+0085, U+00A0, U+1680, U+2000 to U+200A, U+2028, U+2029, U+202F, U+205F and
  U+3000.
\<close>

definition is_space :: "int \<Rightarrow> bool" where
  "is_space c =
     ((9 \<le> c \<and> c \<le> 13) \<or> (28 \<le> c \<and> c \<le> 32) \<or> c = 133 \<or> c = 160 \<or> c = 5760 \<or>
      (8192 \<le> c \<and> c \<le> 8202) \<or> c = 8232 \<or> c = 8233 \<or> c = 8239 \<or> c = 8287 \<or>
      c = 12288)"

text \<open>
  The line boundaries of \<^verbatim>\<open>str.splitlines\<close>: U+000A to U+000D, U+001C to
  U+001E, U+0085, U+2028 and U+2029 (CR followed by LF is one boundary).
\<close>

definition is_linebreak :: "int \<Rightarrow> bool" where
  "is_linebreak c =
     ((10 \<le> c \<and> c \<le> 13) \<or> (28 \<le> c \<and> c \<le> 30) \<or> c = 133 \<or> c = 8232 \<or> c = 8233)"

text \<open>
  \<^verbatim>\<open>\d\<close> in a \<^verbatim>\<open>str\<close> pattern: the decimal digits of Unicode (category Nd),
  given by the first and last code point of each run.
\<close>

definition digit_ranges :: "(int \<times> int) list" where
  "digit_ranges =
     [(48, 57), (1632, 1641), (1776, 1785), (1984, 1993), (2406, 2415), (2534, 2543),
      (2662, 2671), (2790, 2799), (2918, 2927), (3046, 3055), (3174, 3183), (3302, 3311),
      (3430, 3439), (3558, 3567), (3664, 3673), (3792, 3801), (3872, 3881), (4160, 4169),
      (4240, 4249), (6112, 6121), (6160, 6169), (6470, 6479), (6608, 6617), (6784, 6793),
      (6800, 6809), (6992, 7001), (7088, 7097), (7232, 7241), (7248, 7257), (42528, 42537),
      (43216, 43225), (43264, 43273), (43472, 43481), (43504, 43513), (43600, 43609),
      (44016, 44025), (65296, 65305), (66720, 66729), (68912, 68921), (69734, 69743),
      (69872, 69881), (69942, 69951), (70096, 70105), (70384, 70393), (70736, 70745),
      (70864, 70873), (71248, 71257), (71360, 71369), (71472, 71481), (71904, 71913),
      (72016, 72025), (72784, 72793), (73040, 73049), (73120, 73129), (92768, 92777),
      (92864, 92873), (93008, 93017), (120782, 120831), (123200, 123209), (123632, 123641),
      (125264, 125273), (130032, 130041)]"

definition is_digit :: "int \<Rightarrow> bool" where
  "is_digit c = list_ex (\<lambda>r. fst r \<le> c \<and> c \<le> snd r) digit_ranges"

text \<open>
  \<^verbatim>\<open>[A-Z]\<close> under \<^verbatim>\<open>re.IGNORECASE\<close>: the 52 ASCII letters and the four
  characters that case folding ties to them, U+0130 (capital I with dot above),
  U+0131 (dotless i), U+017F (long s) and U+212A (the Kelvin sign).
\<close>

definition is_letter :: "int \<Rightarrow> bool" where
  "is_letter c =
     ((65 \<le> c \<and> c \<le> 90) \<or> (97 \<le> c \<and> c \<le> 122) \<or> c = 304 \<or> c = 305 \<or> c = 383 \<or>
      c = 8490)"

text \<open>
  A literal \<^verbatim>\<open>P\<close> or \<^verbatim>\<open>G\<close> of a pattern under \<^verbatim>\<open>re.IGNORECASE\<close> matches
  its two cases and nothing else.
\<close>

definition is_P :: "int \<Rightarrow> bool" where
  "is_P c = (c = 80 \<or> c = 112)"

definition is_G :: "int \<Rightarrow> bool" where
  "is_G c = (c = 71 \<or> c = 103)"

text \<open>
  \<^verbatim>\<open>group(1).lower()\<close>: \<^verbatim>\<open>str.lower\<close> of a one-character text whose
  character the pattern \<^verbatim>\<open>[A-Z]\<close> accepts. A to Z move up by 32, U+0130 becomes
  the two code points U+0069 U+0307, the Kelvin sign becomes k, and the other
  accepted characters (a to z, U+0131 and U+017F) are their own lower case.
\<close>

definition lower :: "int \<Rightarrow> str" where
  "lower c =
     (if 65 \<le> c \<and> c \<le> 90 then [c + 32]
      else if c = 304 then [105, 775]
      else if c = 8490 then [107]
      else [c])"

text \<open>
  \<^verbatim>\<open>letra_correta.upper()\<close>: \<^verbatim>\<open>str.upper\<close> of a text that \<open>lower\<close> gave.
  a to z move down by 32, U+0131 becomes I, U+017F becomes S and the combining dot
  U+0307 stays.
\<close>

definition upper :: "str \<Rightarrow> str" where
  "upper s = map (\<lambda>c. if 97 \<le> c \<and> c \<le> 122 then c - 32
                       else if c = 305 then 73 else if c = 383 then 83 else c) s"

text \<open>\<^verbatim>\<open>s.strip()\<close>: leading and trailing white space removed.\<close>

definition strip :: "str \<Rightarrow> str" where
  "strip s = rev (dropWhile is_space (rev (dropWhile is_space s)))"

text \<open>\<^verbatim>\<open>s.strip("\n")\<close>: leading and trailing line feeds (U+000A) removed.\<close>

definition strip_nl :: "str \<Rightarrow> str" where
  "strip_nl s = rev (dropWhile (\<lambda>c. c = 10) (rev (dropWhile (\<lambda>c. c = 10) s)))"

text \<open>
  \<^verbatim>\<open>s.splitlines()\<close>. The first argument is the line read so far, reversed.
  A boundary closes the line (CR LF, 13 then 10, counts once); the end of the text
  closes a line only when characters are pending, so a final boundary adds no empty
  line and the empty text has no line.
\<close>

fun splitlines_from :: "str \<Rightarrow> str \<Rightarrow> str list" where
  "splitlines_from cur [] = (if cur = [] then [] else [rev cur])"
| "splitlines_from cur [c] =
     (if is_linebreak c then [rev cur] else [rev (c # cur)])"
| "splitlines_from cur (c # d # cs) =
     (if is_linebreak c
      then rev cur # (if c = 13 \<and> d = 10 then splitlines_from [] cs
                      else splitlines_from [] (d # cs))
      else splitlines_from (c # cur) (d # cs))"

definition splitlines :: "str \<Rightarrow> str list" where
  "splitlines s = splitlines_from [] s"

text \<open>\<^verbatim>\<open>xs.index(x)\<close> for an \<open>x\<close> that occurs in \<open>xs\<close>: its first position.\<close>

definition index_of :: "'a \<Rightarrow> 'a list \<Rightarrow> nat" where
  "index_of x xs = length (takeWhile (\<lambda>y. y \<noteq> x) xs)"

subsection \<open>The three patterns\<close>

text \<open>
  \<^verbatim>\<open>re.match(r"^P\d*:", s, re.IGNORECASE)\<close>: a P, any number of digits, a colon
  (U+003A, 58).
\<close>

definition match_inicio :: "str \<Rightarrow> bool" where
  "match_inicio s = (case s of
       [] \<Rightarrow> False
     | c # cs \<Rightarrow> is_P c \<and> (case dropWhile is_digit cs of
                                [] \<Rightarrow> False
                              | d # _ \<Rightarrow> d = 58))"

text \<open>
  \<^verbatim>\<open>s.split(":", 1)[1].strip() if ":" in s else ""\<close>: what follows the first
  colon, stripped.
\<close>

definition depois_of :: "str \<Rightarrow> str" where
  "depois_of s = (if 58 \<in> set s
     then strip (tl (dropWhile (\<lambda>c. c \<noteq> 58) s)) else [])"

text \<open>
  The tail \<^verbatim>\<open>\s*(.+)\<close> of the alternative pattern, with the group it captures.
  \<^verbatim>\<open>\s*\<close> is greedy and gives characters back when \<^verbatim>\<open>.+\<close> would otherwise be
  empty; \<^verbatim>\<open>.\<close> matches everything but LF (10).
\<close>

fun match_resto :: "str \<Rightarrow> str option" where
  "match_resto [] = None"
| "match_resto (c # cs) =
     (if is_space c
      then (case match_resto cs of
              Some g \<Rightarrow> Some g
            | None \<Rightarrow> if c \<noteq> 10
                      then Some (takeWhile (\<lambda>x. x \<noteq> 10) (c # cs)) else None)
      else Some (takeWhile (\<lambda>x. x \<noteq> 10) (c # cs)))"

text \<open>
  \<^verbatim>\<open>re.match(r"([A-Z])\)\s*(.+)", l, re.IGNORECASE)\<close>: groups 1 and 2 of a match;
  the closing parenthesis is U+0029 (41).
\<close>

definition match_alt :: "str \<Rightarrow> (int \<times> str) option" where
  "match_alt l = (case l of
       c # p # cs \<Rightarrow>
         (if is_letter c \<and> p = 41
          then (case match_resto cs of None \<Rightarrow> None | Some g \<Rightarrow> Some (c, g))
          else None)
     | _ \<Rightarrow> None)"

text \<open>
  \<^verbatim>\<open>re.match(r"G:\s*([A-Z])", l, re.IGNORECASE)\<close>: group 1 of a match. A letter
  is not white space, so \<^verbatim>\<open>\s*\<close> never has to give anything back.
\<close>

definition match_g :: "str \<Rightarrow> int option" where
  "match_g l = (case l of
       g # p # cs \<Rightarrow>
         (if is_G g \<and> p = 58
          then (case dropWhile is_space cs of
                  [] \<Rightarrow> None
                | c # _ \<Rightarrow> if is_letter c then Some c else None)
          else None)
     | _ \<Rightarrow> None)"

subsection \<open>Questions and failures\<close>

text \<open>The dictionary built for each question (V5 lines 220-226).\<close>

record pergunta =
  title :: str
  alternativas :: "str list"
  correta_idx :: nat

text \<open>
  Every failure of the parser is a \<^verbatim>\<open>print\<close> followed by \<^verbatim>\<open>sys.exit(1)\<close>.
  One constructor stands for each such place, named after the failure kind the
  specification gives it, and carries the values the message is formatted with.
\<close>

datatype failure =
    EmptyInput
  | NoQuestionBlocks
  | InsufficientChoices str
  | MissingAnswerKey str
  | AnswerKeyMismatch str str
  | NoValidQuestions

subsection \<open>Splitting the lines into blocks (V5 lines 144-168)\<close>

text \<open>
  The state of the first loop is the pair of \<^verbatim>\<open>blocos\<close> and
  \<^verbatim>\<open>bloco_atual\<close>; \<open>split_step\<close> is its body.
\<close>

definition split_step :: "str list list \<times> str list \<Rightarrow> str \<Rightarrow> str list list \<times> str list" where
  "split_step st linha = (case st of (blocos, bloco_atual) \<Rightarrow>
     (let s = strip linha in
      if s = [] then
        (if bloco_atual \<noteq> [] then (blocos, bloco_atual @ [[]]) else (blocos, bloco_atual))
      else if match_inicio s then
        (let blocos' = (if bloco_atual \<noteq> [] then blocos @ [bloco_atual] else blocos);
             depois = depois_of s
         in if depois \<noteq> [] then (blocos', [depois]) else (blocos', []))
      else (blocos, bloco_atual @ [linha])))"

definition split_blocos :: "str list \<Rightarrow> str list list" where
  "split_blocos linhas = (case foldl split_step ([], []) linhas of
     (blocos, bloco_atual) \<Rightarrow>
       if bloco_atual \<noteq> [] then blocos @ [bloco_atual] else blocos)"

subsection \<open>Reading one block (V5 lines 177-226)\<close>

text \<open>
  The state of the inner loop: \<^verbatim>\<open>alternativas_textos\<close>,
  \<^verbatim>\<open>alternativas_letras\<close> and \<^verbatim>\<open>letra_correta\<close>.
\<close>

type_synonym scan = "str list \<times> str list \<times> str option"

definition scan_step :: "scan \<Rightarrow> str \<Rightarrow> scan" where
  "scan_step st l = (case st of (textos, letras, letra_correta) \<Rightarrow>
     (case match_alt l of
        Some (c, g) \<Rightarrow> (textos @ [strip g], letras @ [lower c], letra_correta)
      | None \<Rightarrow>
         (case match_g l of
            Some c \<Rightarrow> (textos, letras, Some (lower c))
          | None \<Rightarrow> (textos, letras, letra_correta))))"

definition linhas_of :: "str list \<Rightarrow> str list" where
  "linhas_of bloco_p = map strip (filter (\<lambda>l. strip l \<noteq> []) bloco_p)"

text \<open>
  The body of the second loop for a block with a non-empty \<^verbatim>\<open>linhas_p\<close>: the
  question, or the failure of the first check that does not hold.
\<close>

definition parse_linhas :: "str list \<Rightarrow> failure + pergunta" where
  "parse_linhas linhas_p =
     (let enunciado = hd linhas_p in
      case foldl scan_step ([], [], None) (tl linhas_p) of
        (textos, letras, letra_correta) \<Rightarrow>
          if length textos < 2 then Inl (InsufficientChoices enunciado)
          else (case letra_correta of
                  None \<Rightarrow> Inl (MissingAnswerKey enunciado)
                | Some k \<Rightarrow>
                    if k \<notin> set letras then Inl (AnswerKeyMismatch (upper k) enunciado)
                    else Inr \<lparr>title = enunciado, alternativas = textos,
                              correta_idx = index_of k letras\<rparr>))"

text \<open>
  The second loop, with \<^verbatim>\<open>perguntas\<close> as its accumulator. A block whose
  \<^verbatim>\<open>linhas_p\<close> is empty is skipped (\<^verbatim>\<open>continue\<close>); a failure ends the run.
\<close>

fun parse_blocos :: "pergunta list \<Rightarrow> str list list \<Rightarrow> failure + pergunta list" where
  "parse_blocos perguntas [] = Inr perguntas"
| "parse_blocos perguntas (bloco_p # rest) =
     (let linhas_p = linhas_of bloco_p in
      if linhas_p = [] then parse_blocos perguntas rest
      else (case parse_linhas linhas_p of
              Inl e \<Rightarrow> Inl e
            | Inr q \<Rightarrow> parse_blocos (perguntas @ [q]) rest))"

subsection \<open>The parser (V5 lines 133-232)\<close>

definition parse_bloco :: "str \<Rightarrow> failure + pergunta list" where
  "parse_bloco bloco =
     (let texto = strip_nl bloco in
      if texto = [] then Inl EmptyInput
      else
        (let blocos = split_blocos (splitlines texto) in
         if blocos = [] then Inl NoQuestionBlocks
         else (case parse_blocos [] blocos of
                 Inl e \<Rightarrow> Inl e
               | Inr perguntas \<Rightarrow>
                   if perguntas = [] then Inl NoValidQuestions else Inr perguntas)))"

subsection \<open>What the caller observes (V5 lines 139-140, 171-172, 204-216, 229-230)\<close>

text \<open>
  The line each failure prints before \<^verbatim>\<open>sys.exit(1)\<close>. The apostrophe is
  U+0027 (39) and the a with tilde is U+00E3 (227).
\<close>

fun mensagem :: "failure \<Rightarrow> str" where
  "mensagem EmptyInput = ustr ''Nenhum texto informado.''"
| "mensagem NoQuestionBlocks =
     ustr ''ERRO: Nenhum bloco de pergunta encontrado (P1:, P2:, ...).''"
| "mensagem (InsufficientChoices enunciado) =
     ustr ''ERRO: pergunta sem alternativas suficientes -> '' @ enunciado"
| "mensagem (MissingAnswerKey enunciado) =
     ustr ''ERRO: pergunta sem gabarito (linha '' @ [39] @ ustr ''G: X'' @ [39] @ ustr '') -> ''
       @ enunciado"
| "mensagem (AnswerKeyMismatch letra enunciado) =
     ustr ''ERRO: gabarito '' @ [39] @ letra @ [39] @ ustr '' n'' @ [227]
       @ ustr ''o corresponde a nenhuma alternativa em -> '' @ enunciado"
| "mensagem NoValidQuestions =
     ustr ''ERRO: n'' @ [227] @ ustr ''o consegui montar nenhuma pergunta.''"

text \<open>
  A call either returns the list of questions or leaves through
  \<^verbatim>\<open>SystemExit\<close> with a status.
\<close>

datatype saida = Exit int | Return "pergunta list"

text \<open>
  A run of \<^verbatim>\<open>parse_bloco\<close> as its caller sees it: the lines written to the
  standard output, and the way the call ends.
\<close>

definition parse_bloco_run :: "str \<Rightarrow> str list \<times> saida" where
  "parse_bloco_run bloco = (case parse_bloco bloco of
       Inl e \<Rightarrow> ([mensagem e], Exit 1)
     | Inr perguntas \<Rightarrow> ([], Return perguntas))"

text \<open>The failure kind of the specification: the constructor, without its values.\<close>

datatype kind = KEmptyInput | KNoQuestionBlocks | KInsufficientChoices
  | KMissingAnswerKey | KAnswerKeyMismatch | KNoValidQuestions

fun kind_of :: "failure \<Rightarrow> kind" where
  "kind_of EmptyInput = KEmptyInput"
| "kind_of NoQuestionBlocks = KNoQuestionBlocks"
| "kind_of (InsufficientChoices enunciado) = KInsufficientChoices"
| "kind_of (MissingAnswerKey enunciado) = KMissingAnswerKey"
| "kind_of (AnswerKeyMismatch letra enunciado) = KAnswerKeyMismatch"
| "kind_of NoValidQuestions = KNoValidQuestions"

subsection \<open>The same function in version 3 of the script (V3 lines 137-246)\<close>

text \<open>
  \<^verbatim>\<open>classroom_criar_atividade_com_teste_V3.py\<close> has its own copy of the parser.
  It is embedded again from its own text: the first loop (V3 lines 164-184), the
  inner loop (V3 lines 203-215), the checks (V3 lines 217-240), the second loop
  (V3 lines 192-240) and the function (V3 lines 154-246).
\<close>

definition split_step_V3 :: "str list list \<times> str list \<Rightarrow> str \<Rightarrow> str list list \<times> str list" where
  "split_step_V3 st linha = (case st of (blocos, bloco_atual) \<Rightarrow>
     (let s = strip linha in
      if s = [] then
        (if bloco_atual \<noteq> [] then (blocos, bloco_atual @ [[]]) else (blocos, bloco_atual))
      else if match_inicio s then
        (let blocos' = (if bloco_atual \<noteq> [] then blocos @ [bloco_atual] else blocos);
             depois = depois_of s
         in if depois \<noteq> [] then (blocos', [depois]) else (blocos', []))
      else (blocos, bloco_atual @ [linha])))"

definition split_blocos_V3 :: "str list \<Rightarrow> str list list" where
  "split_blocos_V3 linhas = (case foldl split_step_V3 ([], []) linhas of
     (blocos, bloco_atual) \<Rightarrow>
       if bloco_atual \<noteq> [] then blocos @ [bloco_atual] else blocos)"

definition scan_step_V3 :: "scan \<Rightarrow> str \<Rightarrow> scan" where
  "scan_step_V3 st l = (case st of (textos, letras, letra_correta) \<Rightarrow>
     (case match_alt l of
        Some (c, g) \<Rightarrow> (textos @ [strip g], letras @ [lower c], letra_correta)
      | None \<Rightarrow>
         (case match_g l of
            Some c \<Rightarrow> (textos, letras, Some (lower c))
          | None \<Rightarrow> (textos, letras, letra_correta))))"

definition parse_linhas_V3 :: "str list \<Rightarrow> failure + pergunta" where
  "parse_linhas_V3 linhas_p =
     (let enunciado = hd linhas_p in
      case foldl scan_step_V3 ([], [], None) (tl linhas_p) of
        (textos, letras, letra_correta) \<Rightarrow>
          if length textos < 2 then Inl (InsufficientChoices enunciado)
          else (case letra_correta of
                  None \<Rightarrow> Inl (MissingAnswerKey enunciado)
                | Some k \<Rightarrow>
                    if k \<notin> set letras then Inl (AnswerKeyMismatch (upper k) enunciado)
                    else Inr \<lparr>title = enunciado, alternativas = textos,
                              correta_idx = index_of k letras\<rparr>))"

fun parse_blocos_V3 :: "pergunta list \<Rightarrow> str list list \<Rightarrow> failure + pergunta list" where
  "parse_blocos_V3 perguntas [] = Inr perguntas"
| "parse_blocos_V3 perguntas (bloco_p # rest) =
     (let linhas_p = map strip (filter (\<lambda>l. strip l \<noteq> []) bloco_p) in
      if linhas_p = [] then parse_blocos_V3 perguntas rest
      else (case parse_linhas_V3 linhas_p of
              Inl e \<Rightarrow> Inl e
            | Inr q \<Rightarrow> parse_blocos_V3 (perguntas @ [q]) rest))"

definition parse_bloco_V3 :: "str \<Rightarrow> failure + pergunta list" where
  "parse_bloco_V3 bloco =
     (let texto = strip_nl bloco in
      if texto = [] then Inl EmptyInput
      else
        (let blocos = split_blocos_V3 (splitlines texto) in
         if blocos = [] then Inl NoQuestionBlocks
         else (case parse_blocos_V3 [] blocos of
                 Inl e \<Rightarrow> Inl e
               | Inr perguntas \<Rightarrow>
                   if perguntas = [] then Inl NoValidQuestions else Inr perguntas)))"

subsection \<open>What a block holds, in the words of the specification\<close>

text \<open>
  The definitions of this subsection are not taken from the loops of the source:
  they name the parts of a block the way the specification describes them, so
  that the loops can be compared with them.

  The title is the first non-blank line of the block, trimmed.
\<close>

definition bloco_titulo :: "str list \<Rightarrow> str" where
  "bloco_titulo bloco_p = strip (hd (filter (\<lambda>l. strip l \<noteq> []) bloco_p))"

text \<open>
  The alternative lines of the block, in the order they occur: the non-blank lines
  after the title that match the alternative pattern, each with its letter and text
  as matched.
\<close>

definition bloco_alternativas :: "str list \<Rightarrow> (int \<times> str) list" where
  "bloco_alternativas bloco_p = List.map_filter match_alt (tl (linhas_of bloco_p))"

definition bloco_letras :: "str list \<Rightarrow> str list" where
  "bloco_letras bloco_p = map (\<lambda>a. lower (fst a)) (bloco_alternativas bloco_p)"

definition bloco_textos :: "str list \<Rightarrow> str list" where
  "bloco_textos bloco_p = map (\<lambda>a. strip (snd a)) (bloco_alternativas bloco_p)"

text \<open>
  The letters of the answer-key lines of the block, in the order they occur: the
  lines after the title that are not alternatives and match the answer-key pattern.
\<close>

definition bloco_gabaritos :: "str list \<Rightarrow> int list" where
  "bloco_gabaritos bloco_p =
     List.map_filter match_g (filter (\<lambda>l. match_alt l = None) (tl (linhas_of bloco_p)))"

text \<open>
  A block validates when it has two alternatives or more, an answer-key line, and
  an alternative whose letter is the letter of its last answer-key line.
\<close>

definition bloco_valido :: "str list \<Rightarrow> bool" where
  "bloco_valido bloco_p =
     (2 \<le> length (bloco_alternativas bloco_p) \<and> bloco_gabaritos bloco_p \<noteq> [] \<and>
      lower (last (bloco_gabaritos bloco_p)) \<in> set (bloco_letras bloco_p))"

text \<open>The question a valid block stands for.\<close>

definition pergunta_of :: "str list \<Rightarrow> pergunta" where
  "pergunta_of bloco_p =
     \<lparr>title = bloco_titulo bloco_p, alternativas = bloco_textos bloco_p,
      correta_idx = index_of (lower (last (bloco_gabaritos bloco_p))) (bloco_letras bloco_p)\<rparr>"

text \<open>
  A line that leaves the state of the first loop empty: a blank line, or a
  question-start line with nothing after its colon.
\<close>

definition sem_conteudo :: "str \<Rightarrow> bool" where
  "sem_conteudo linha =
     (strip linha = [] \<or> (match_inicio (strip linha) \<and> depois_of (strip linha) = []))"

text \<open>
  The lines of the input cut at the question-start lines, as the specification
  describes the blocks: the first element holds the lines before the first
  question-start line; each further element stands for one question-start line, in
  order, and holds what follows its colon and then the lines up to the next
  question-start line or the end of the input.
\<close>

fun trechos :: "str list \<Rightarrow> str list list" where
  "trechos [] = [[]]"
| "trechos (l # ls) =
     (if match_inicio (strip l)
      then [] # (depois_of (strip l) # hd (trechos ls)) # tl (trechos ls)
      else (l # hd (trechos ls)) # tl (trechos ls))"

subsection \<open>The markers in lower case\<close>

text \<open>
  The canonical form of the markers. A line with its trimmed part replaced by
  another text keeps the white space it has on both sides.
\<close>

definition com_margens :: "str \<Rightarrow> str \<Rightarrow> str" where
  "com_margens l s =
     takeWhile is_space l @ s @ rev (takeWhile is_space (rev (dropWhile is_space l)))"

text \<open>
  The lower case of an ASCII capital; every other character as it is. The four
  characters beyond ASCII that the letter pattern accepts are left alone: Python's
  \<^verbatim>\<open>lower\<close> and \<^verbatim>\<open>upper\<close> do not take them back and forth.
\<close>

definition lower_ascii :: "int \<Rightarrow> int" where
  "lower_ascii c = (if 65 \<le> c \<and> c \<le> 90 then c + 32 else c)"

text \<open>The first character in lower case.\<close>

definition lower_hd :: "str \<Rightarrow> str" where
  "lower_hd s = (case s of [] \<Rightarrow> [] | c # cs \<Rightarrow> lower_ascii c # cs)"

text \<open>The first character that is not white space in lower case.\<close>

fun lower_first :: "str \<Rightarrow> str" where
  "lower_first [] = []"
| "lower_first (c # cs) = (if is_space c then c # lower_first cs else lower_ascii c # cs)"

text \<open>
  An answer-key line with its G and its letter (the first character after the
  colon that is not white space) in lower case.
\<close>

definition lower_gabarito :: "str \<Rightarrow> str" where
  "lower_gabarito s = (case s of g # p # cs \<Rightarrow> lower_ascii g # p # lower_first cs | _ \<Rightarrow> s)"

text \<open>
  A trimmed line of a block after its title: the letter of an alternative line, or
  the G and the letter of an answer-key line, in lower case when it is an ASCII
  letter; any other line as it is.
\<close>

definition canon_trim :: "str \<Rightarrow> str" where
  "canon_trim s =
     (if match_alt s \<noteq> None then lower_hd s
      else if match_g s \<noteq> None then lower_gabarito s else s)"

definition canon_linha :: "str \<Rightarrow> str" where
  "canon_linha l =
     (if match_alt (strip l) \<noteq> None \<or> match_g (strip l) \<noteq> None
      then com_margens l (canon_trim (strip l)) else l)"

text \<open>
  The lines of an input with every ASCII letter of a marker in lower case. The flag
  says whether the block being read has its title already: a question-start line
  gets its P in lower case and gives the title when text follows its colon;
  otherwise the next line that is not blank is the title and stays as it is; the
  lines after the title are alternative lines, answer-key lines or other lines.
\<close>

fun canon_linhas :: "bool \<Rightarrow> str list \<Rightarrow> str list" where
  "canon_linhas tem_titulo [] = []"
| "canon_linhas tem_titulo (l # ls) =
     (if strip l = [] then l # canon_linhas tem_titulo ls
      else if match_inicio (strip l)
      then com_margens l (lower_hd (strip l)) # canon_linhas (depois_of (strip l) \<noteq> []) ls
      else if \<not> tem_titulo then l # canon_linhas True ls
      else canon_linha l # canon_linhas True ls)"

text \<open>A block with the lines after its first one in canonical form.\<close>

definition canon_bloco :: "str list \<Rightarrow> str list" where
  "canon_bloco b = (case b of [] \<Rightarrow> [] | t # rest \<Rightarrow> t # map canon_linha rest)"

section \<open>The two versions of the parser agree\<close>

lemma split_step_V3_eq: "split_step_V3 = split_step"
  by (rule ext, rule ext) (simp add: split_step_V3_def split_step_def)

lemma scan_step_V3_eq: "scan_step_V3 = scan_step"
  by (rule ext, rule ext) (simp add: scan_step_V3_def scan_step_def)

lemma split_blocos_V3_eq: "split_blocos_V3 linhas = split_blocos linhas"
  by (simp add: split_blocos_V3_def split_blocos_def split_step_V3_eq)

lemma parse_linhas_V3_eq: "parse_linhas_V3 linhas_p = parse_linhas linhas_p"
  by (simp add: parse_linhas_V3_def parse_linhas_def scan_step_V3_eq)

lemma parse_blocos_V3_eq: "parse_blocos_V3 perguntas blocos = parse_blocos perguntas blocos"
proof (induction blocos arbitrary: perguntas)
  case Nil
  show ?case by simp
next
  case (Cons bloco_p rest)
  show ?case
    by (simp add: Let_def linhas_of_def parse_linhas_V3_eq Cons.IH split: sum.splits)
qed

text \<open>
  C9. For every input text the parser of version 3 and the parser of version 5 give
  the same result: the same question list when they return, and the same failure
  (kind, title and letter) when they fail.
\<close>

theorem parse_bloco_V3_V5_equivalent: "parse_bloco_V3 bloco = parse_bloco bloco"
  by (simp add: parse_bloco_V3_def parse_bloco_def Let_def split_blocos_V3_eq parse_blocos_V3_eq)

section \<open>Facts about the string primitives\<close>

lemma dropWhile_fix: "xs = [] \<or> \<not> P (hd xs) \<Longrightarrow> dropWhile P xs = xs"
  by (cases xs) auto

lemma last_dropWhile: "dropWhile P xs \<noteq> [] \<Longrightarrow> last (dropWhile P xs) = last xs"
  by (induction xs) (auto split: if_splits)

lemma dropWhile_all_Nil:
  assumes "\<forall>c\<in>set (dropWhile P s). P c"
  shows "dropWhile P s = []"
proof (rule ccontr)
  assume ne: "dropWhile P s \<noteq> []"
  then have "\<not> P (hd (dropWhile P s))" by (rule hd_dropWhile)
  moreover have "hd (dropWhile P s) \<in> set (dropWhile P s)" using ne by simp
  ultimately show False using assms by blast
qed

lemma strip_fix:
  assumes "s \<noteq> []" "\<not> is_space (hd s)" "\<not> is_space (last s)"
  shows "strip s = s"
proof -
  have a: "dropWhile is_space s = s" using assms by (simp add: dropWhile_fix)
  have "hd (rev s) = last s" using assms(1) by (simp add: hd_rev)
  then have "dropWhile is_space (rev s) = rev s" using assms by (simp add: dropWhile_fix)
  then show ?thesis by (simp add: strip_def a)
qed

lemma strip_ends:
  assumes "strip s \<noteq> []"
  shows "\<not> is_space (hd (strip s))" and "\<not> is_space (last (strip s))"
proof -
  define a where "a = dropWhile is_space s"
  define b where "b = dropWhile is_space (rev a)"
  have s: "strip s = rev b" by (simp add: strip_def a_def b_def)
  then have b: "b \<noteq> []" using assms by simp
  then have hb: "\<not> is_space (hd b)" unfolding b_def by (rule hd_dropWhile)
  have "rev a \<noteq> []" using b unfolding b_def by auto
  then have a: "a \<noteq> []" by simp
  then have ha: "\<not> is_space (hd a)" unfolding a_def by (rule hd_dropWhile)
  have "last b = last (rev a)" using b unfolding b_def by (rule last_dropWhile)
  also have "\<dots> = hd a" using a by (simp add: last_rev)
  finally have lb: "last b = hd a" .
  show "\<not> is_space (hd (strip s))" using b lb ha by (simp add: s hd_rev)
  show "\<not> is_space (last (strip s))" using b hb by (simp add: s last_rev)
qed

lemma strip_Nil: "strip [] = []"
  by (simp add: strip_def)

lemma strip_idem: "strip (strip s) = strip s"
proof (cases "strip s = []")
  case True
  then show ?thesis by (simp add: strip_Nil)
next
  case False
  then show ?thesis using strip_ends[OF False] by (simp add: strip_fix)
qed

lemma strip_gen_empty:
  "(rev (dropWhile P (rev (dropWhile P s))) = []) = (\<forall>c\<in>set s. P c)"
proof
  assume "rev (dropWhile P (rev (dropWhile P s))) = []"
  then have "dropWhile P (rev (dropWhile P s)) = []" by simp
  then have "\<forall>c\<in>set (rev (dropWhile P s)). P c" by (simp only: dropWhile_eq_Nil_conv)
  then have "\<forall>c\<in>set (dropWhile P s). P c" by simp
  then have "dropWhile P s = []" by (rule dropWhile_all_Nil)
  then show "\<forall>c\<in>set s. P c" by (simp only: dropWhile_eq_Nil_conv)
next
  assume a: "\<forall>c\<in>set s. P c"
  then have d: "dropWhile P s = []" by (simp only: dropWhile_eq_Nil_conv)
  show "rev (dropWhile P (rev (dropWhile P s))) = []" unfolding d by simp
qed

lemma set_strip_gen:
  assumes "c \<in> set (rev (dropWhile P (rev (dropWhile P s))))"
  shows "c \<in> set s"
proof -
  from assms have "c \<in> set (dropWhile P (rev (dropWhile P s)))" by simp
  then have "c \<in> set (rev (dropWhile P s))" by (rule set_dropWhileD)
  then have "c \<in> set (dropWhile P s)" by simp
  then show ?thesis by (rule set_dropWhileD)
qed

lemma strip_blank: "(strip s = []) = (\<forall>c\<in>set s. is_space c)"
  unfolding strip_def by (rule strip_gen_empty)

lemma strip_nl_empty: "(strip_nl s = []) = (\<forall>c\<in>set s. c = 10)"
  unfolding strip_nl_def by (rule strip_gen_empty)

lemma set_strip_nl: "c \<in> set (strip_nl s) \<Longrightarrow> c \<in> set s"
  unfolding strip_nl_def by (rule set_strip_gen)

lemma set_strip: "c \<in> set (strip s) \<Longrightarrow> c \<in> set s"
  unfolding strip_def by (rule set_strip_gen)

lemma set_splitlines_from:
  "l \<in> set (splitlines_from cur s) \<Longrightarrow> set l \<subseteq> set cur \<union> set s"
proof (induction cur s rule: splitlines_from.induct)
  case (1 cur)
  then show ?case by (simp split: if_splits)
next
  case (2 cur c)
  then show ?case by (auto split: if_splits)
next
  case (3 cur c d cs)
  show ?case
  proof (cases "is_linebreak c")
    case False
    with 3 show ?thesis by auto
  next
    case lb: True
    show ?thesis
    proof (cases "c = 13 \<and> d = 10")
      case True
      with 3 lb show ?thesis by auto
    next
      case False
      with 3 lb show ?thesis by auto
    qed
  qed
qed

lemma set_splitlines: "l \<in> set (splitlines s) \<Longrightarrow> set l \<subseteq> set s"
  using set_splitlines_from[of l "[]" s] by (simp add: splitlines_def)

section \<open>Every block starts with a non-blank line\<close>

lemma strip_depois_of: "strip (depois_of s) = depois_of s"
  by (simp add: depois_of_def strip_idem strip_Nil)

lemma split_step_titled:
  assumes "\<forall>b\<in>set blocos. b \<noteq> [] \<and> strip (hd b) \<noteq> []"
      and "atual \<noteq> [] \<longrightarrow> strip (hd atual) \<noteq> []"
      and "split_step (blocos, atual) linha = (blocos', atual')"
  shows "(\<forall>b\<in>set blocos'. b \<noteq> [] \<and> strip (hd b) \<noteq> []) \<and>
         (atual' \<noteq> [] \<longrightarrow> strip (hd atual') \<noteq> [])"
proof (cases "strip linha = []")
  case True
  with assms show ?thesis by (auto simp: split_step_def split: if_splits)
next
  case nb: False
  show ?thesis
  proof (cases "match_inicio (strip linha)")
    case True
    with nb assms show ?thesis
      by (auto simp: split_step_def Let_def strip_depois_of split: if_splits)
  next
    case False
    with nb assms show ?thesis
      by (cases atual) (auto simp: split_step_def Let_def)
  qed
qed

lemma foldl_split_titled:
  assumes "\<forall>b\<in>set blocos. b \<noteq> [] \<and> strip (hd b) \<noteq> []"
      and "atual \<noteq> [] \<longrightarrow> strip (hd atual) \<noteq> []"
      and "foldl split_step (blocos, atual) linhas = (blocos', atual')"
  shows "(\<forall>b\<in>set blocos'. b \<noteq> [] \<and> strip (hd b) \<noteq> []) \<and>
         (atual' \<noteq> [] \<longrightarrow> strip (hd atual') \<noteq> [])"
  using assms
proof (induction linhas arbitrary: blocos atual)
  case Nil
  then show ?case by simp
next
  case (Cons l ls)
  obtain b1 a1 where s: "split_step (blocos, atual) l = (b1, a1)" by (cases "split_step (blocos, atual) l")
  have inv: "(\<forall>b\<in>set b1. b \<noteq> [] \<and> strip (hd b) \<noteq> []) \<and> (a1 \<noteq> [] \<longrightarrow> strip (hd a1) \<noteq> [])"
    using split_step_titled[OF Cons.prems(1) Cons.prems(2) s] .
  from Cons.prems(3) have "foldl split_step (b1, a1) ls = (blocos', atual')" by (simp add: s)
  with inv Cons.IH show ?case by blast
qed

lemma split_blocos_titled:
  assumes "b \<in> set (split_blocos linhas)"
  shows "b \<noteq> [] \<and> strip (hd b) \<noteq> []"
proof -
  obtain bs a where f: "foldl split_step ([], []) linhas = (bs, a)"
    by (cases "foldl split_step ([], []) linhas")
  have "(\<forall>b\<in>set bs. b \<noteq> [] \<and> strip (hd b) \<noteq> []) \<and> (a \<noteq> [] \<longrightarrow> strip (hd a) \<noteq> [])"
    by (rule foldl_split_titled[OF _ _ f]) simp_all
  with assms f show ?thesis by (auto simp: split_blocos_def split: if_splits)
qed

lemma linhas_of_titled:
  assumes "b \<noteq> []" "strip (hd b) \<noteq> []"
  shows "linhas_of b \<noteq> []" and "hd (linhas_of b) = strip (hd b)"
  using assms by (cases b; simp add: linhas_of_def)+

lemma parse_linhas_kind:
  "parse_linhas lp = Inl e \<Longrightarrow>
     e = InsufficientChoices (hd lp) \<or> e = MissingAnswerKey (hd lp) \<or> (\<exists>k. e = AnswerKeyMismatch k (hd lp))"
  by (auto simp: parse_linhas_def Let_def split: prod.splits if_splits option.splits)

lemma parse_blocos_kind:
  "parse_blocos ps bs = Inl e \<Longrightarrow>
     (\<exists>t. e = InsufficientChoices t \<or> e = MissingAnswerKey t \<or> (\<exists>k. e = AnswerKeyMismatch k t))"
proof (induction bs arbitrary: ps)
  case Nil
  then show ?case by simp
next
  case (Cons b bs)
  show ?case
  proof (cases "linhas_of b = []")
    case True
    with Cons show ?thesis by simp
  next
    case False
    show ?thesis
    proof (cases "parse_linhas (linhas_of b)")
      case (Inl e')
      with False Cons.prems have "e' = e" by simp
      with Inl parse_linhas_kind show ?thesis by blast
    next
      case (Inr q)
      with False Cons show ?thesis by simp
    qed
  qed
qed

lemma parse_blocos_length:
  assumes "\<forall>b\<in>set bs. linhas_of b \<noteq> []" "parse_blocos ps bs = Inr qs"
  shows "length qs = length ps + length bs"
  using assms
proof (induction bs arbitrary: ps)
  case Nil
  then show ?case by simp
next
  case (Cons b bs)
  then obtain q where q: "parse_linhas (linhas_of b) = Inr q"
    by (cases "parse_linhas (linhas_of b)") auto
  with Cons.prems have "parse_blocos (ps @ [q]) bs = Inr qs" by simp
  with Cons.IH[of "ps @ [q]"] Cons.prems(1) show ?case by simp
qed

lemma split_blocos_linhas: "b \<in> set (split_blocos linhas) \<Longrightarrow> linhas_of b \<noteq> []"
  using split_blocos_titled linhas_of_titled(1) by blast

text \<open>
  C10. Every block the first loop appends holds a non-blank line, so no block is
  skipped by the second loop: when the parser returns, the question list is not
  empty, and the parser never fails with \<open>NoValidQuestions\<close>.
\<close>

theorem no_valid_questions_unreachable:
  "(\<forall>b\<in>set (split_blocos (splitlines (strip_nl bloco))). \<exists>l\<in>set b. strip l \<noteq> []) \<and>
   (\<forall>qs. parse_bloco bloco = Inr qs \<longrightarrow> qs \<noteq> []) \<and>
   parse_bloco bloco \<noteq> Inl NoValidQuestions"
proof (intro conjI)
  show "\<forall>b\<in>set (split_blocos (splitlines (strip_nl bloco))). \<exists>l\<in>set b. strip l \<noteq> []"
  proof
    fix b assume "b \<in> set (split_blocos (splitlines (strip_nl bloco)))"
    then have "b \<noteq> [] \<and> strip (hd b) \<noteq> []" by (rule split_blocos_titled)
    then show "\<exists>l\<in>set b. strip l \<noteq> []" using hd_in_set by blast
  qed
  show "\<forall>qs. parse_bloco bloco = Inr qs \<longrightarrow> qs \<noteq> []"
    by (auto simp: parse_bloco_def Let_def split: if_splits sum.splits)
  show "parse_bloco bloco \<noteq> Inl NoValidQuestions"
  proof
    assume a: "parse_bloco bloco = Inl NoValidQuestions"
    define bs where "bs = split_blocos (splitlines (strip_nl bloco))"
    from a have ne: "bs \<noteq> []"
      by (auto simp: parse_bloco_def Let_def bs_def split: if_splits)
    show False
    proof (cases "parse_blocos [] bs")
      case (Inl e)
      with a have "e = NoValidQuestions"
        by (auto simp: parse_bloco_def Let_def bs_def split: if_splits)
      with Inl parse_blocos_kind show False by blast
    next
      case (Inr qs)
      have "\<forall>b\<in>set bs. linhas_of b \<noteq> []" unfolding bs_def using split_blocos_linhas by blast
      then have "length qs = length bs" using parse_blocos_length[OF _ Inr] by simp
      with ne have "qs \<noteq> []" by auto
      with Inr a show False
        by (auto simp: parse_bloco_def Let_def bs_def split: if_splits)
    qed
  qed
qed

theorem no_valid_questions_unreachable_witness:
  "parse_bloco (ustr ''P1: Q\<newline>A) x\<newline>B) y\<newline>G: A'') =
     Inr [\<lparr>title = ustr ''Q'', alternativas = [ustr ''x'', ustr ''y''], correta_idx = 0\<rparr>] \<and>
   [\<lparr>title = ustr ''Q'', alternativas = [ustr ''x'', ustr ''y''], correta_idx = 0\<rparr>] \<noteq> []"
proof -
  have e: "parse_bloco (ustr ''P1: Q\<newline>A) x\<newline>B) y\<newline>G: A'') =
     Inr [\<lparr>title = ustr ''Q'', alternativas = [ustr ''x'', ustr ''y''], correta_idx = 0\<rparr>]"
    by code_simp
  have a: "\<forall>qs. parse_bloco (ustr ''P1: Q\<newline>A) x\<newline>B) y\<newline>G: A'') = Inr qs \<longrightarrow> qs \<noteq> []"
    by (rule conjunct1[OF conjunct2[OF no_valid_questions_unreachable]])
  have "[\<lparr>title = ustr ''Q'', alternativas = [ustr ''x'', ustr ''y''], correta_idx = 0\<rparr>] \<noteq> []"
    by (rule a[rule_format, OF e])
  with e show ?thesis by (rule conjI)
qed

section \<open>What the two loops compute\<close>

lemma map_filter_Cons:
  "List.map_filter f (x # xs) = (case f x of None \<Rightarrow> List.map_filter f xs | Some y \<Rightarrow> y # List.map_filter f xs)"
  by (simp add: List.map_filter_def split: option.splits)

lemma map_filter_Nil: "List.map_filter f [] = []"
  by (simp add: List.map_filter_def)

lemma foldl_scan_step:
  "foldl scan_step (ts, ls, k) xs =
     (ts @ map (\<lambda>a. strip (snd a)) (List.map_filter match_alt xs),
      ls @ map (\<lambda>a. lower (fst a)) (List.map_filter match_alt xs),
      (let gs = List.map_filter match_g (filter (\<lambda>l. match_alt l = None) xs)
       in if gs = [] then k else Some (lower (last gs))))"
proof (induction xs arbitrary: ts ls k)
  case Nil
  show ?case by (simp add: map_filter_Nil)
next
  case (Cons x xs)
  show ?case
  proof (cases "match_alt x")
    case (Some a)
    obtain c g where a: "a = (c, g)" by (cases a)
    have "scan_step (ts, ls, k) x = (ts @ [strip g], ls @ [lower c], k)"
      by (simp add: scan_step_def Some a)
    then show ?thesis by (simp add: Cons.IH map_filter_Cons Some a)
  next
    case None
    show ?thesis
    proof (cases "match_g x")
      case g: None
      have "scan_step (ts, ls, k) x = (ts, ls, k)" by (simp add: scan_step_def None g)
      then show ?thesis by (simp add: Cons.IH map_filter_Cons None g)
    next
      case g: (Some c)
      have "scan_step (ts, ls, k) x = (ts, ls, Some (lower c))" by (simp add: scan_step_def None g)
      then show ?thesis by (simp add: Cons.IH map_filter_Cons None g Let_def)
    qed
  qed
qed

lemma parse_linhas_blocos:
  "parse_linhas (linhas_of b) =
     (if length (bloco_alternativas b) < 2 then Inl (InsufficientChoices (hd (linhas_of b)))
      else if bloco_gabaritos b = [] then Inl (MissingAnswerKey (hd (linhas_of b)))
      else if lower (last (bloco_gabaritos b)) \<notin> set (bloco_letras b)
           then Inl (AnswerKeyMismatch (upper (lower (last (bloco_gabaritos b)))) (hd (linhas_of b)))
      else Inr \<lparr>title = hd (linhas_of b), alternativas = bloco_textos b,
                correta_idx = index_of (lower (last (bloco_gabaritos b))) (bloco_letras b)\<rparr>)"
  by (simp add: parse_linhas_def foldl_scan_step Let_def bloco_alternativas_def
      bloco_gabaritos_def bloco_letras_def bloco_textos_def)

lemma hd_linhas_of: "linhas_of b \<noteq> [] \<Longrightarrow> hd (linhas_of b) = bloco_titulo b"
  by (simp add: linhas_of_def bloco_titulo_def hd_map)

lemma parse_linhas_valido:
  "linhas_of b \<noteq> [] \<Longrightarrow> bloco_valido b \<Longrightarrow> parse_linhas (linhas_of b) = Inr (pergunta_of b)"
  by (simp add: parse_linhas_blocos bloco_valido_def pergunta_of_def hd_linhas_of)

lemma parse_linhas_Inr:
  "parse_linhas (linhas_of b) = Inr q \<Longrightarrow> bloco_valido b"
  by (simp add: parse_linhas_blocos bloco_valido_def split: if_splits)

lemma parse_blocos_validos:
  assumes "\<forall>b\<in>set bs. linhas_of b \<noteq> [] \<and> bloco_valido b"
  shows "parse_blocos ps bs = Inr (ps @ map pergunta_of bs)"
  using assms
proof (induction bs arbitrary: ps)
  case Nil
  show ?case by simp
next
  case (Cons b bs)
  then have "parse_linhas (linhas_of b) = Inr (pergunta_of b)" by (simp add: parse_linhas_valido)
  with Cons show ?case by simp
qed

lemma parse_blocos_Inr:
  assumes "\<forall>b\<in>set bs. linhas_of b \<noteq> []" "parse_blocos ps bs = Inr qs"
  shows "(\<forall>b\<in>set bs. bloco_valido b) \<and> qs = ps @ map pergunta_of bs"
  using assms
proof (induction bs arbitrary: ps)
  case Nil
  then show ?case by simp
next
  case (Cons b bs)
  then obtain q where q: "parse_linhas (linhas_of b) = Inr q"
    by (cases "parse_linhas (linhas_of b)") auto
  then have v: "bloco_valido b" by (rule parse_linhas_Inr)
  with Cons.prems q have qq: "q = pergunta_of b" by (simp add: parse_linhas_valido)
  from Cons.prems q have "parse_blocos (ps @ [q]) bs = Inr qs" by simp
  with Cons.IH[of "ps @ [q]"] Cons.prems(1) have "(\<forall>b\<in>set bs. bloco_valido b) \<and> qs = (ps @ [q]) @ map pergunta_of bs" by simp
  with v qq show ?case by simp
qed

lemma parse_blocos_first_invalid:
  assumes "\<forall>b\<in>set pre. linhas_of b \<noteq> [] \<and> bloco_valido b" "linhas_of b \<noteq> []"
      and "parse_linhas (linhas_of b) = Inl e"
  shows "parse_blocos ps (pre @ b # post) = Inl e"
  using assms(1)
proof (induction pre arbitrary: ps)
  case Nil
  show ?case using assms(2,3) by simp
next
  case (Cons p pre)
  then have "parse_linhas (linhas_of p) = Inr (pergunta_of p)" by (simp add: parse_linhas_valido)
  with Cons show ?case by simp
qed

lemma index_of_nth: "x \<in> set xs \<Longrightarrow> index_of x xs < length xs \<and> xs ! index_of x xs = x"
proof (induction xs)
  case Nil
  then show ?case by simp
next
  case (Cons y ys)
  then show ?case by (cases "y = x") (auto simp: index_of_def)
qed

lemma splitlines_Nil: "splitlines [] = []"
  by (simp add: splitlines_def)

lemma split_blocos_Nil: "split_blocos [] = []"
  by (simp add: split_blocos_def)

lemma strip_nl_Nil_blocos: "strip_nl bloco = [] \<Longrightarrow> split_blocos (splitlines (strip_nl bloco)) = []"
  by (simp add: splitlines_Nil split_blocos_Nil)

lemma parse_bloco_blocos:
  assumes "split_blocos (splitlines (strip_nl bloco)) \<noteq> []"
  shows "parse_bloco bloco =
     (case parse_blocos [] (split_blocos (splitlines (strip_nl bloco))) of
        Inl e \<Rightarrow> Inl e
      | Inr perguntas \<Rightarrow> if perguntas = [] then Inl NoValidQuestions else Inr perguntas)"
proof -
  from assms have "strip_nl bloco \<noteq> []" using strip_nl_Nil_blocos by blast
  with assms show ?thesis by (simp add: parse_bloco_def Let_def)
qed

lemma parse_bloco_blocos_validos:
  assumes "split_blocos (splitlines (strip_nl bloco)) = bs" and "bs \<noteq> []"
      and "\<forall>b\<in>set bs. bloco_valido b"
  shows "parse_bloco bloco = Inr (map pergunta_of bs) \<and>
         (\<forall>b\<in>set bs. title (pergunta_of b) = bloco_titulo b \<and>
            alternativas (pergunta_of b) = bloco_textos b \<and>
            length (bloco_textos b) = length (bloco_letras b) \<and>
            correta_idx (pergunta_of b) < length (bloco_letras b) \<and>
            bloco_letras b ! correta_idx (pergunta_of b) = lower (last (bloco_gabaritos b)))"
proof
  have l: "\<forall>b\<in>set bs. linhas_of b \<noteq> []"
    using assms(1) split_blocos_linhas by blast
  with assms(3) have "parse_blocos [] bs = Inr ([] @ map pergunta_of bs)"
    by (intro parse_blocos_validos) blast
  moreover have "parse_bloco bloco = (case parse_blocos [] bs of
        Inl e \<Rightarrow> Inl e
      | Inr perguntas \<Rightarrow> if perguntas = [] then Inl NoValidQuestions else Inr perguntas)"
    using parse_bloco_blocos[of bloco] assms(1,2) by simp
  ultimately show "parse_bloco bloco = Inr (map pergunta_of bs)"
    using assms(2) by simp
  show "\<forall>b\<in>set bs. title (pergunta_of b) = bloco_titulo b \<and>
            alternativas (pergunta_of b) = bloco_textos b \<and>
            length (bloco_textos b) = length (bloco_letras b) \<and>
            correta_idx (pergunta_of b) < length (bloco_letras b) \<and>
            bloco_letras b ! correta_idx (pergunta_of b) = lower (last (bloco_gabaritos b))"
  proof
    fix b assume "b \<in> set bs"
    with assms(3) have "lower (last (bloco_gabaritos b)) \<in> set (bloco_letras b)"
      by (simp add: bloco_valido_def)
    then have "index_of (lower (last (bloco_gabaritos b))) (bloco_letras b) < length (bloco_letras b) \<and>
       bloco_letras b ! index_of (lower (last (bloco_gabaritos b))) (bloco_letras b) = lower (last (bloco_gabaritos b))"
      by (rule index_of_nth)
    then show "title (pergunta_of b) = bloco_titulo b \<and>
            alternativas (pergunta_of b) = bloco_textos b \<and>
            length (bloco_textos b) = length (bloco_letras b) \<and>
            correta_idx (pergunta_of b) < length (bloco_letras b) \<and>
            bloco_letras b ! correta_idx (pergunta_of b) = lower (last (bloco_gabaritos b))"
      by (simp add: pergunta_of_def bloco_textos_def bloco_letras_def)
  qed
qed

section \<open>Inputs without blocks\<close>

lemma split_step_sem_conteudo: "sem_conteudo l \<Longrightarrow> split_step ([], []) l = ([], [])"
  by (auto simp: sem_conteudo_def split_step_def Let_def)

lemma split_step_keeps:
  assumes "bs \<noteq> [] \<or> a \<noteq> []" "split_step (bs, a) l = (bs', a')"
  shows "bs' \<noteq> [] \<or> a' \<noteq> []"
  using assms by (auto simp: split_step_def Let_def split: if_splits)

lemma split_step_conteudo:
  assumes "\<not> sem_conteudo l" "split_step (bs, a) l = (bs', a')"
  shows "bs' \<noteq> [] \<or> a' \<noteq> []"
  using assms by (auto simp: sem_conteudo_def split_step_def Let_def split: if_splits)

lemma foldl_split_keeps:
  assumes "bs \<noteq> [] \<or> a \<noteq> []" "foldl split_step (bs, a) ls = (bs', a')"
  shows "bs' \<noteq> [] \<or> a' \<noteq> []"
  using assms
proof (induction ls arbitrary: bs a)
  case Nil
  then show ?case by simp
next
  case (Cons l ls)
  obtain b1 a1 where s: "split_step (bs, a) l = (b1, a1)" by (cases "split_step (bs, a) l")
  have "b1 \<noteq> [] \<or> a1 \<noteq> []" using split_step_keeps[OF Cons.prems(1) s] .
  moreover from Cons.prems(2) have "foldl split_step (b1, a1) ls = (bs', a')" by (simp add: s)
  ultimately show ?case using Cons.IH by blast
qed

lemma foldl_split_empty:
  "(foldl split_step ([], []) ls = ([], [])) = (\<forall>l\<in>set ls. sem_conteudo l)"
proof (induction ls)
  case Nil
  show ?case by simp
next
  case (Cons l ls)
  show ?case
  proof (cases "sem_conteudo l")
    case True
    then show ?thesis by (simp add: split_step_sem_conteudo Cons.IH)
  next
    case False
    obtain b1 a1 where s: "split_step ([], []) l = (b1, a1)" by (cases "split_step ([], []) l")
    have ne: "b1 \<noteq> [] \<or> a1 \<noteq> []" using split_step_conteudo[OF False s] .
    obtain b2 a2 where f: "foldl split_step (b1, a1) ls = (b2, a2)"
      by (cases "foldl split_step (b1, a1) ls")
    have "b2 \<noteq> [] \<or> a2 \<noteq> []" using foldl_split_keeps[OF ne f] .
    then have "foldl split_step ([], []) (l # ls) \<noteq> ([], [])" by (auto simp: s f)
    with False show ?thesis by simp
  qed
qed

lemma split_blocos_empty: "(split_blocos ls = []) = (\<forall>l\<in>set ls. sem_conteudo l)"
proof -
  have "(split_blocos ls = []) = (foldl split_step ([], []) ls = ([], []))"
    by (cases "foldl split_step ([], []) ls") (auto simp: split_blocos_def)
  then show ?thesis by (simp only: foldl_split_empty)
qed

lemma parse_bloco_cases:
  "parse_bloco bloco =
     (if strip_nl bloco = [] then Inl EmptyInput
      else if split_blocos (splitlines (strip_nl bloco)) = [] then Inl NoQuestionBlocks
      else (case parse_blocos [] (split_blocos (splitlines (strip_nl bloco))) of
              Inl e \<Rightarrow> Inl e
            | Inr perguntas \<Rightarrow> if perguntas = [] then Inl NoValidQuestions else Inr perguntas))"
  by (simp add: parse_bloco_def Let_def)

lemma parse_bloco_EmptyInput: "(parse_bloco bloco = Inl EmptyInput) = (strip_nl bloco = [])"
proof (cases "parse_blocos [] (split_blocos (splitlines (strip_nl bloco)))")
  case (Inl e)
  then have "e \<noteq> EmptyInput" using parse_blocos_kind by blast
  with Inl show ?thesis by (simp add: parse_bloco_cases)
next
  case (Inr qs)
  then show ?thesis by (simp add: parse_bloco_cases)
qed

lemma parse_bloco_NoQuestionBlocks:
  "(parse_bloco bloco = Inl NoQuestionBlocks) =
     (strip_nl bloco \<noteq> [] \<and> split_blocos (splitlines (strip_nl bloco)) = [])"
proof (cases "parse_blocos [] (split_blocos (splitlines (strip_nl bloco)))")
  case (Inl e)
  then have "e \<noteq> NoQuestionBlocks" using parse_blocos_kind by blast
  with Inl show ?thesis by (simp add: parse_bloco_cases)
next
  case (Inr qs)
  then show ?thesis by (simp add: parse_bloco_cases)
qed

lemma blank_sem_conteudo:
  assumes "\<forall>c\<in>set bloco. is_space c" "l \<in> set (splitlines (strip_nl bloco))"
  shows "sem_conteudo l"
proof -
  have "set l \<subseteq> set (strip_nl bloco)" using assms(2) by (rule set_splitlines)
  then have "\<forall>c\<in>set l. is_space c" using assms(1) set_strip_nl by blast
  then have "strip l = []" by (simp only: strip_blank)
  then show ?thesis by (simp add: sem_conteudo_def)
qed

text \<open>
  C3, as the code has it. The parser fails with \<open>EmptyInput\<close> exactly when the input
  is empty or made of line feeds only; an input of white space that holds another
  character than the line feed fails with \<open>NoQuestionBlocks\<close>.
\<close>

theorem empty_input_only_line_feeds:
  "((parse_bloco bloco = Inl EmptyInput) = (\<forall>c\<in>set bloco. c = 10)) \<and>
   ((\<forall>c\<in>set bloco. is_space c) \<and> (\<exists>c\<in>set bloco. c \<noteq> 10) \<longrightarrow>
      parse_bloco bloco = Inl NoQuestionBlocks)"
proof
  show "(parse_bloco bloco = Inl EmptyInput) = (\<forall>c\<in>set bloco. c = 10)"
    by (simp only: parse_bloco_EmptyInput strip_nl_empty)
  show "(\<forall>c\<in>set bloco. is_space c) \<and> (\<exists>c\<in>set bloco. c \<noteq> 10) \<longrightarrow>
      parse_bloco bloco = Inl NoQuestionBlocks"
  proof
    assume a: "(\<forall>c\<in>set bloco. is_space c) \<and> (\<exists>c\<in>set bloco. c \<noteq> 10)"
    then have ne: "strip_nl bloco \<noteq> []" by (simp only: strip_nl_empty) blast
    have "\<forall>l\<in>set (splitlines (strip_nl bloco)). sem_conteudo l"
      using a blank_sem_conteudo by blast
    then have "split_blocos (splitlines (strip_nl bloco)) = []" by (simp only: split_blocos_empty)
    with ne show "parse_bloco bloco = Inl NoQuestionBlocks"
      by (simp only: parse_bloco_NoQuestionBlocks) simp
  qed
qed

theorem empty_input_only_line_feeds_witness:
  "parse_bloco (ustr ''\<newline>\<newline>'') = Inl EmptyInput \<and> parse_bloco (ustr '' \<newline> '') = Inl NoQuestionBlocks"
proof
  have "\<forall>c\<in>set (ustr ''\<newline>\<newline>''). c = 10" by (simp add: ustr_def)
  then show "parse_bloco (ustr ''\<newline>\<newline>'') = Inl EmptyInput"
    by (rule iffD2[OF conjunct1[OF empty_input_only_line_feeds]])
  have "(\<forall>c\<in>set (ustr '' \<newline> ''). is_space c) \<and> (\<exists>c\<in>set (ustr '' \<newline> ''). c \<noteq> 10)" by code_simp
  then show "parse_bloco (ustr '' \<newline> '') = Inl NoQuestionBlocks"
    by (rule mp[OF conjunct2[OF empty_input_only_line_feeds]])
qed

theorem whitespace_input_counterexample:
  "is_space 32 \<and> parse_bloco (ustr '' '') = Inl NoQuestionBlocks"
  by code_simp

text \<open>
  C4, as the code has it. For an input that is not empty once its outer line
  feeds are removed, the parser fails with \<open>NoQuestionBlocks\<close> exactly when every
  line is blank or is a question-start line with nothing after its colon.
\<close>

theorem no_question_blocks_iff:
  assumes "strip_nl bloco \<noteq> []"
  shows "(parse_bloco bloco = Inl NoQuestionBlocks) =
         (\<forall>l\<in>set (splitlines (strip_nl bloco)). sem_conteudo l)"
  using assms by (simp only: parse_bloco_NoQuestionBlocks split_blocos_empty) simp

theorem no_question_blocks_iff_witness:
  "parse_bloco (ustr ''P1:\<newline>\<newline>p22:  '') = Inl NoQuestionBlocks"
proof -
  have h: "strip_nl (ustr ''P1:\<newline>\<newline>p22:  '') \<noteq> []" by code_simp
  have "\<forall>l\<in>set (splitlines (strip_nl (ustr ''P1:\<newline>\<newline>p22:  ''))). sem_conteudo l" by code_simp
  then show ?thesis by (rule iffD2[OF no_question_blocks_iff[OF h]])
qed

theorem no_marker_counterexample:
  "splitlines (strip_nl (ustr ''hello'')) = [ustr ''hello''] \<and>
   \<not> match_inicio (strip (ustr ''hello'')) \<and>
   parse_bloco (ustr ''hello'') = Inl (InsufficientChoices (ustr ''hello'')) \<and>
   splitlines (strip_nl (ustr ''P1:'')) = [ustr ''P1:''] \<and>
   match_inicio (strip (ustr ''P1:'')) \<and>
   parse_bloco (ustr ''P1:'') = Inl NoQuestionBlocks"
  by code_simp

section \<open>The answer key\<close>

lemma parse_bloco_Inr:
  assumes "parse_bloco bloco = Inr qs"
  shows "qs = map pergunta_of (split_blocos (splitlines (strip_nl bloco))) \<and>
         (\<forall>b\<in>set (split_blocos (splitlines (strip_nl bloco))). bloco_valido b)"
proof -
  define bs where "bs = split_blocos (splitlines (strip_nl bloco))"
  have l: "\<forall>b\<in>set bs. linhas_of b \<noteq> []" unfolding bs_def using split_blocos_linhas by blast
  from assms have "parse_blocos [] bs = Inr qs"
    by (auto simp: parse_bloco_cases bs_def split: if_splits sum.splits)
  then have "(\<forall>b\<in>set bs. bloco_valido b) \<and> qs = [] @ map pergunta_of bs"
    by (rule parse_blocos_Inr[OF l])
  then show ?thesis by (simp add: bs_def)
qed

text \<open>
  C8, as the code has it. The inner loop overwrites \<^verbatim>\<open>letra_correta\<close> at every
  answer-key line, so the last answer-key line of a block governs: the index of a
  returned question is the first position of the letter of that last line among
  the letters of the alternatives.
\<close>

theorem last_answer_key_governs:
  assumes "parse_bloco bloco = Inr qs" and "i < length qs"
  shows "bloco_gabaritos (split_blocos (splitlines (strip_nl bloco)) ! i) \<noteq> [] \<and>
         correta_idx (qs ! i) =
           index_of (lower (last (bloco_gabaritos (split_blocos (splitlines (strip_nl bloco)) ! i))))
             (bloco_letras (split_blocos (splitlines (strip_nl bloco)) ! i))"
proof -
  define bs where "bs = split_blocos (splitlines (strip_nl bloco))"
  have q: "qs = map pergunta_of bs" and v: "\<forall>b\<in>set bs. bloco_valido b"
    using parse_bloco_Inr[OF assms(1)] by (simp_all add: bs_def)
  from q assms(2) have i: "i < length bs" by simp
  then have "bloco_valido (bs ! i)" using v by simp
  then have "bloco_gabaritos (bs ! i) \<noteq> []" by (simp add: bloco_valido_def)
  moreover have "correta_idx (qs ! i) =
      index_of (lower (last (bloco_gabaritos (bs ! i)))) (bloco_letras (bs ! i))"
    using i by (simp add: q pergunta_of_def)
  ultimately show ?thesis by (simp add: bs_def)
qed

theorem last_answer_key_governs_witness:
  "bloco_gabaritos [ustr ''Q'', ustr ''A) x'', ustr ''B) y'', ustr ''G: A'', ustr ''G: B''] = ustr ''AB'' \<and>
   correta_idx ([\<lparr>title = ustr ''Q'', alternativas = [ustr ''x'', ustr ''y''], correta_idx = 1\<rparr>] ! 0) =
     index_of (lower (last (ustr ''AB''))) [ustr ''a'', ustr ''b'']"
proof -
  have h1: "parse_bloco (ustr ''P1: Q\<newline>A) x\<newline>B) y\<newline>G: A\<newline>G: B'') =
      Inr [\<lparr>title = ustr ''Q'', alternativas = [ustr ''x'', ustr ''y''], correta_idx = 1\<rparr>]"
    by code_simp
  have h2: "0 < length [\<lparr>title = ustr ''Q'', alternativas = [ustr ''x'', ustr ''y''], correta_idx = 1\<rparr>]"
    by simp
  have b: "split_blocos (splitlines (strip_nl (ustr ''P1: Q\<newline>A) x\<newline>B) y\<newline>G: A\<newline>G: B''))) ! 0 =
      [ustr ''Q'', ustr ''A) x'', ustr ''B) y'', ustr ''G: A'', ustr ''G: B'']"
    by code_simp
  have g: "bloco_gabaritos [ustr ''Q'', ustr ''A) x'', ustr ''B) y'', ustr ''G: A'', ustr ''G: B''] = ustr ''AB''"
    by code_simp
  have l: "bloco_letras [ustr ''Q'', ustr ''A) x'', ustr ''B) y'', ustr ''G: A'', ustr ''G: B''] = [ustr ''a'', ustr ''b'']"
    by code_simp
  have "correta_idx ([\<lparr>title = ustr ''Q'', alternativas = [ustr ''x'', ustr ''y''], correta_idx = 1\<rparr>] ! 0) =
     index_of (lower (last (ustr ''AB''))) [ustr ''a'', ustr ''b'']"
    using conjunct2[OF last_answer_key_governs[OF h1 h2]] by (simp only: b g l)
  with g show ?thesis by (rule conjI)
qed

theorem first_answer_key_counterexample:
  "bloco_gabaritos [ustr ''Q'', ustr ''A) x'', ustr ''B) y'', ustr ''G: A'', ustr ''G: B''] = ustr ''AB'' \<and>
   parse_bloco (ustr ''P1: Q\<newline>A) x\<newline>B) y\<newline>G: A\<newline>G: B'') =
     Inr [\<lparr>title = ustr ''Q'', alternativas = [ustr ''x'', ustr ''y''], correta_idx = 1\<rparr>] \<and>
   parse_bloco (ustr ''P1: Q\<newline>A) x\<newline>B) y\<newline>G: A'') =
     Inr [\<lparr>title = ustr ''Q'', alternativas = [ustr ''x'', ustr ''y''], correta_idx = 0\<rparr>]"
  by code_simp

text \<open>
  C5, as the code has it. The checks of a block run in a fixed order and the
  blocks are read in order. When the blocks before a block validate, and the block
  has two alternatives or more and an answer-key line whose letter is the letter of
  none of its alternatives, the parser fails with \<open>AnswerKeyMismatch\<close>, which
  carries that letter in upper case and the title of the block.
\<close>

theorem answer_key_mismatch:
  assumes "split_blocos (splitlines (strip_nl bloco)) = pre @ b # post"
      and "\<forall>p\<in>set pre. bloco_valido p"
      and "2 \<le> length (bloco_alternativas b)"
      and "bloco_gabaritos b \<noteq> []"
      and "lower (last (bloco_gabaritos b)) \<notin> set (bloco_letras b)"
  shows "parse_bloco bloco =
           Inl (AnswerKeyMismatch (upper (lower (last (bloco_gabaritos b)))) (bloco_titulo b))"
proof -
  have l: "\<forall>x\<in>set (pre @ b # post). linhas_of x \<noteq> []"
    using assms(1) split_blocos_linhas by metis
  then have lb: "linhas_of b \<noteq> []" by simp
  have e: "parse_linhas (linhas_of b) =
      Inl (AnswerKeyMismatch (upper (lower (last (bloco_gabaritos b)))) (bloco_titulo b))"
    using assms(3,4,5) by (simp add: parse_linhas_blocos hd_linhas_of[OF lb])
  have p: "\<forall>x\<in>set pre. linhas_of x \<noteq> [] \<and> bloco_valido x" using l assms(2) by simp
  have "parse_blocos [] (pre @ b # post) =
      Inl (AnswerKeyMismatch (upper (lower (last (bloco_gabaritos b)))) (bloco_titulo b))"
    by (rule parse_blocos_first_invalid[OF p lb e])
  moreover have "strip_nl bloco \<noteq> []" using assms(1) strip_nl_Nil_blocos by fastforce
  ultimately show ?thesis by (simp add: parse_bloco_cases assms(1))
qed

theorem answer_key_mismatch_witness:
  "parse_bloco (ustr ''P1: Q\<newline>A) x\<newline>B) y\<newline>G: C'') = Inl (AnswerKeyMismatch (ustr ''C'') (ustr ''Q''))"
proof -
  have h1: "split_blocos (splitlines (strip_nl (ustr ''P1: Q\<newline>A) x\<newline>B) y\<newline>G: C''))) =
      [] @ [ustr ''Q'', ustr ''A) x'', ustr ''B) y'', ustr ''G: C''] # []"
    by code_simp
  have h2: "\<forall>p\<in>set []. bloco_valido p" by simp
  have h3: "2 \<le> length (bloco_alternativas [ustr ''Q'', ustr ''A) x'', ustr ''B) y'', ustr ''G: C''])" by code_simp
  have h4: "bloco_gabaritos [ustr ''Q'', ustr ''A) x'', ustr ''B) y'', ustr ''G: C''] \<noteq> []" by code_simp
  have h5: "lower (last (bloco_gabaritos [ustr ''Q'', ustr ''A) x'', ustr ''B) y'', ustr ''G: C''])) \<notin>
      set (bloco_letras [ustr ''Q'', ustr ''A) x'', ustr ''B) y'', ustr ''G: C''])"
    by code_simp
  have k: "upper (lower (last (bloco_gabaritos [ustr ''Q'', ustr ''A) x'', ustr ''B) y'', ustr ''G: C'']))) = ustr ''C''"
    by code_simp
  have t: "bloco_titulo [ustr ''Q'', ustr ''A) x'', ustr ''B) y'', ustr ''G: C''] = ustr ''Q''" by code_simp
  show ?thesis using answer_key_mismatch[OF h1 h2 h3 h4 h5] by (simp only: k t)
qed

theorem answer_key_mismatch_counterexample:
  "split_blocos (splitlines (strip_nl (ustr ''P1: Q\<newline>G: C''))) = [[ustr ''Q'', ustr ''G: C'']] \<and>
   bloco_gabaritos [ustr ''Q'', ustr ''G: C''] = ustr ''C'' \<and> bloco_letras [ustr ''Q'', ustr ''G: C''] = [] \<and>
   parse_bloco (ustr ''P1: Q\<newline>G: C'') = Inl (InsufficientChoices (ustr ''Q''))"
  by code_simp

section \<open>Failures as the caller sees them\<close>

lemma mensagem_kind: "kind_of e' \<noteq> kind_of e \<Longrightarrow> mensagem e' \<noteq> mensagem e"
  by (cases e; cases e'; simp add: ustr_def)

text \<open>
  C2, as the code has it. A failure of the parser is not a value handed to the
  caller: the parser prints one line and leaves through \<^verbatim>\<open>SystemExit\<close> with
  status 1, whatever the failure; the rule that was violated can be read from the
  printed line only, which differs from one failure kind to the other. When the
  parser returns, it has printed nothing; a failure comes with no list of questions.
\<close>

theorem failure_is_printed_then_exit_1:
  "(parse_bloco bloco = Inl e \<longrightarrow>
      parse_bloco_run bloco = ([mensagem e], Exit 1) \<and>
      (\<forall>e'. kind_of e' \<noteq> kind_of e \<longrightarrow> mensagem e' \<noteq> mensagem e)) \<and>
   (parse_bloco bloco = Inr perguntas \<longrightarrow> parse_bloco_run bloco = ([], Return perguntas))"
  by (simp add: parse_bloco_run_def mensagem_kind)

theorem failure_is_printed_then_exit_1_witness:
  "parse_bloco_run (ustr ''P1: Q\<newline>A) x'') =
     ([ustr ''ERRO: pergunta sem alternativas suficientes -> Q''], Exit 1) \<and>
   parse_bloco_run (ustr ''P1: Q\<newline>A) x\<newline>B) y\<newline>G: A'') =
     ([], Return [\<lparr>title = ustr ''Q'', alternativas = [ustr ''x'', ustr ''y''], correta_idx = 0\<rparr>])"
proof
  have h: "parse_bloco (ustr ''P1: Q\<newline>A) x'') = Inl (InsufficientChoices (ustr ''Q''))" by code_simp
  have m: "mensagem (InsufficientChoices (ustr ''Q'')) =
      (ustr ''ERRO: pergunta sem alternativas suficientes -> Q'')" by (simp add: ustr_def)
  have "parse_bloco_run (ustr ''P1: Q\<newline>A) x'') = ([mensagem (InsufficientChoices (ustr ''Q''))], Exit 1)"
    by (rule conjunct1[OF mp[OF conjunct1[OF failure_is_printed_then_exit_1] h]])
  then show "parse_bloco_run (ustr ''P1: Q\<newline>A) x'') =
     ([ustr ''ERRO: pergunta sem alternativas suficientes -> Q''], Exit 1)"
    by (simp only: m)
  have r: "parse_bloco (ustr ''P1: Q\<newline>A) x\<newline>B) y\<newline>G: A'') =
      Inr [\<lparr>title = ustr ''Q'', alternativas = [ustr ''x'', ustr ''y''], correta_idx = 0\<rparr>]" by code_simp
  show "parse_bloco_run (ustr ''P1: Q\<newline>A) x\<newline>B) y\<newline>G: A'') =
     ([], Return [\<lparr>title = ustr ''Q'', alternativas = [ustr ''x'', ustr ''y''], correta_idx = 0\<rparr>])"
    by (rule mp[OF conjunct2[OF failure_is_printed_then_exit_1] r])
qed

theorem exit_status_counterexample:
  "parse_bloco_run (ustr '''') = ([ustr ''Nenhum texto informado.''], Exit 1) \<and>
   parse_bloco_run (ustr ''P1:'') =
     ([ustr ''ERRO: Nenhum bloco de pergunta encontrado (P1:, P2:, ...).''], Exit 1) \<and>
   snd (parse_bloco_run (ustr '''')) = snd (parse_bloco_run (ustr ''P1:''))"
  by code_simp

section \<open>Questions follow the blocks of the input\<close>

lemma trechos_not_Nil: "trechos ls \<noteq> []"
  by (cases ls) simp_all

lemma length_trechos: "length (trechos ls) = Suc (length (filter (\<lambda>l. match_inicio (strip l)) ls))"
proof (induction ls)
  case Nil
  show ?case by simp
next
  case (Cons l ls)
  have "length (tl (trechos ls)) = length (filter (\<lambda>l. match_inicio (strip l)) ls)"
    using Cons by simp
  then show ?case by simp
qed

lemma linhas_of_append: "linhas_of (xs @ ys) = linhas_of xs @ linhas_of ys"
  by (simp add: linhas_of_def)

lemma linhas_of_Cons:
  "linhas_of (x # xs) = (if strip x \<noteq> [] then strip x # linhas_of xs else linhas_of xs)"
  by (simp add: linhas_of_def)

lemma linhas_of_Nil: "linhas_of [] = []"
  by (simp add: linhas_of_def)

lemma match_inicio_Nil: "\<not> match_inicio []"
  by (simp add: match_inicio_def)

lemma linhas_of_atual:
  assumes "a \<noteq> [] \<longrightarrow> strip (hd a) \<noteq> []"
  shows "(linhas_of a \<noteq> []) = (a \<noteq> [])"
proof (cases a)
  case Nil
  then show ?thesis by (simp add: linhas_of_Nil)
next
  case (Cons x xs)
  with assms show ?thesis by (simp add: linhas_of_Cons)
qed

lemma foldl_split_trechos:
  assumes "a \<noteq> [] \<longrightarrow> strip (hd a) \<noteq> []"
  shows "map linhas_of (case foldl split_step (bs, a) ls of
            (bs', a') \<Rightarrow> if a' \<noteq> [] then bs' @ [a'] else bs') =
         map linhas_of bs @
           filter (\<lambda>x. x \<noteq> []) (map linhas_of ((a @ hd (trechos ls)) # tl (trechos ls)))"
  using assms
proof (induction ls arbitrary: bs a)
  case Nil
  then show ?case using linhas_of_atual[of a] by simp
next
  case (Cons l ls)
  have la: "(linhas_of a \<noteq> []) = (a \<noteq> [])" using Cons.prems by (rule linhas_of_atual)
  show ?case
  proof (cases "strip l = []")
    case True
    define a1 where "a1 = (if a \<noteq> [] then a @ [[]] else a)"
    have st: "split_step (bs, a) l = (bs, a1)" by (simp add: split_step_def True a1_def)
    have inv: "a1 \<noteq> [] \<longrightarrow> strip (hd a1) \<noteq> []" using Cons.prems by (simp add: a1_def)
    have l1: "linhas_of (a1 @ hd (trechos ls)) = linhas_of (a @ l # hd (trechos ls))"
      by (simp add: a1_def linhas_of_append linhas_of_Cons linhas_of_Nil True strip_Nil)
    have tr: "trechos (l # ls) = (l # hd (trechos ls)) # tl (trechos ls)"
      by (simp add: True match_inicio_Nil)
    show ?thesis using Cons.IH[OF inv, of bs] by (simp add: st tr l1 del: trechos.simps)
  next
    case nb: False
    show ?thesis
    proof (cases "match_inicio (strip l)")
      case True
      define d where "d = depois_of (strip l)"
      define bs1 where "bs1 = (if a \<noteq> [] then bs @ [a] else bs)"
      define a1 where "a1 = (if d \<noteq> [] then [d] else [])"
      have st: "split_step (bs, a) l = (bs1, a1)"
        by (simp add: split_step_def nb True Let_def bs1_def a1_def d_def)
      have sd: "strip d = d" by (simp add: d_def strip_depois_of)
      have inv: "a1 \<noteq> [] \<longrightarrow> strip (hd a1) \<noteq> []" by (simp add: a1_def sd)
      have l1: "linhas_of (a1 @ hd (trechos ls)) = linhas_of (d # hd (trechos ls))"
        by (simp add: a1_def linhas_of_Cons strip_Nil)
      have tr: "trechos (l # ls) = [] # (d # hd (trechos ls)) # tl (trechos ls)"
        by (simp add: True d_def)
      have b1: "map linhas_of bs1 = map linhas_of bs @ filter (\<lambda>x. x \<noteq> []) [linhas_of a]"
        using la by (simp add: bs1_def linhas_of_Nil)
      show ?thesis using Cons.IH[OF inv, of bs1]
        by (simp add: st tr l1 b1 linhas_of_Nil del: trechos.simps)
    next
      case False
      have st: "split_step (bs, a) l = (bs, a @ [l])"
        by (simp add: split_step_def nb False)
      have inv: "a @ [l] \<noteq> [] \<longrightarrow> strip (hd (a @ [l])) \<noteq> []"
        using Cons.prems nb by (cases a) simp_all
      have tr: "trechos (l # ls) = (l # hd (trechos ls)) # tl (trechos ls)"
        by (simp add: False)
      show ?thesis using Cons.IH[OF inv, of bs] by (simp add: st tr del: trechos.simps)
    qed
  qed
qed

lemma split_blocos_trechos:
  "map linhas_of (split_blocos ls) =
     map linhas_of (filter (\<lambda>seg. linhas_of seg \<noteq> []) (trechos ls))"
proof -
  have "map linhas_of (split_blocos ls) =
      filter (\<lambda>x. x \<noteq> []) (map linhas_of (hd (trechos ls) # tl (trechos ls)))"
    using foldl_split_trechos[of "[]" "[]" ls] by (simp add: split_blocos_def)
  also have "hd (trechos ls) # tl (trechos ls) = trechos ls"
    using trechos_not_Nil by simp
  finally show ?thesis by (simp add: filter_map comp_def)
qed

lemma pergunta_of_linhas:
  assumes "linhas_of b = linhas_of b'" "linhas_of b \<noteq> []"
  shows "pergunta_of b = pergunta_of b'"
proof -
  have "bloco_titulo b = bloco_titulo b'"
    using assms hd_linhas_of[of b] hd_linhas_of[of b'] by simp
  then show ?thesis
    using assms(1)
    by (simp add: pergunta_of_def bloco_textos_def bloco_letras_def bloco_alternativas_def
        bloco_gabaritos_def)
qed

lemma map_pergunta_of_linhas:
  assumes "map linhas_of xs = map linhas_of ys" "\<forall>x\<in>set xs. linhas_of x \<noteq> []"
  shows "map pergunta_of xs = map pergunta_of ys"
  using assms
proof (induction xs arbitrary: ys)
  case Nil
  then show ?case by simp
next
  case (Cons x xs)
  then obtain y ys' where y: "ys = y # ys'" by (cases ys) auto
  with Cons.prems have "linhas_of x = linhas_of y" "map linhas_of xs = map linhas_of ys'"
    "linhas_of x \<noteq> []" "\<forall>x\<in>set xs. linhas_of x \<noteq> []" by simp_all
  then show ?case using Cons.IH[of ys'] pergunta_of_linhas[of x y] by (simp add: y)
qed

lemma parse_bloco_trechos:
  assumes "parse_bloco bloco = Inr qs"
  shows "qs = map pergunta_of
           (filter (\<lambda>seg. linhas_of seg \<noteq> []) (trechos (splitlines (strip_nl bloco))))"
proof -
  have "qs = map pergunta_of (split_blocos (splitlines (strip_nl bloco)))"
    using parse_bloco_Inr[OF assms] by simp
  also have "\<dots> = map pergunta_of
           (filter (\<lambda>seg. linhas_of seg \<noteq> []) (trechos (splitlines (strip_nl bloco))))"
    by (rule map_pergunta_of_linhas[OF split_blocos_trechos]) (simp add: split_blocos_linhas)
  finally show ?thesis .
qed

text \<open>
  C6, as the code has it. When the parser returns, the questions are, in order,
  the questions of the non-empty pieces of the input cut at its question-start
  lines: the text before the first question-start line, when it has a non-blank
  line, and then every question-start line that has content; the choices of a
  question are the texts of the alternative lines of its piece, in the order they
  occur. When no non-blank line precedes the first question-start line and every
  question-start line has content, there are as many questions as question-start
  lines and the i-th question is the question of the i-th of them.
\<close>

theorem questions_follow_blocks:
  assumes "parse_bloco bloco = Inr qs"
  shows "qs = map pergunta_of
           (filter (\<lambda>seg. linhas_of seg \<noteq> []) (trechos (splitlines (strip_nl bloco)))) \<and>
         (\<forall>q\<in>set qs. \<exists>seg\<in>set (trechos (splitlines (strip_nl bloco))).
            q = pergunta_of seg \<and>
            alternativas q = map (\<lambda>a. strip (snd a)) (bloco_alternativas seg)) \<and>
         (linhas_of (hd (trechos (splitlines (strip_nl bloco)))) = [] \<and>
          (\<forall>seg\<in>set (tl (trechos (splitlines (strip_nl bloco)))). linhas_of seg \<noteq> []) \<longrightarrow>
            length qs =
              length (filter (\<lambda>l. match_inicio (strip l)) (splitlines (strip_nl bloco))) \<and>
            (\<forall>i<length qs. qs ! i = pergunta_of (tl (trechos (splitlines (strip_nl bloco))) ! i)))"
proof (intro conjI impI)
  define ls where "ls = splitlines (strip_nl bloco)"
  have q: "qs = map pergunta_of (filter (\<lambda>seg. linhas_of seg \<noteq> []) (trechos ls))"
    unfolding ls_def using assms by (rule parse_bloco_trechos)
  then show "qs = map pergunta_of
           (filter (\<lambda>seg. linhas_of seg \<noteq> []) (trechos (splitlines (strip_nl bloco))))"
    by (simp add: ls_def)
  show "\<forall>q\<in>set qs. \<exists>seg\<in>set (trechos (splitlines (strip_nl bloco))).
            q = pergunta_of seg \<and>
            alternativas q = map (\<lambda>a. strip (snd a)) (bloco_alternativas seg)"
    unfolding ls_def[symmetric] by (auto simp: q pergunta_of_def bloco_textos_def)
  {
    assume h: "linhas_of (hd (trechos (splitlines (strip_nl bloco)))) = [] \<and>
          (\<forall>seg\<in>set (tl (trechos (splitlines (strip_nl bloco)))). linhas_of seg \<noteq> [])"
    have t: "trechos ls = hd (trechos ls) # tl (trechos ls)"
      using trechos_not_Nil by simp
    have "filter (\<lambda>seg. linhas_of seg \<noteq> []) (hd (trechos ls) # tl (trechos ls)) = tl (trechos ls)"
      using h by (simp add: ls_def)
    then have f: "filter (\<lambda>seg. linhas_of seg \<noteq> []) (trechos ls) = tl (trechos ls)"
      using t by simp
    have n: "length (tl (trechos ls)) = length (filter (\<lambda>l. match_inicio (strip l)) ls)"
      by (simp add: length_trechos)
    have "length qs = length (filter (\<lambda>l. match_inicio (strip l)) ls)"
      using n by (simp add: q f)
    then show "length qs =
        length (filter (\<lambda>l. match_inicio (strip l)) (splitlines (strip_nl bloco)))"
      by (simp only: ls_def)
    have "\<forall>i<length qs. qs ! i = pergunta_of (tl (trechos ls) ! i)"
      by (simp add: q f)
    then show "\<forall>i<length qs. qs ! i = pergunta_of (tl (trechos (splitlines (strip_nl bloco))) ! i)"
      by (simp only: ls_def)
  }
qed

theorem questions_follow_blocks_witness:
  "length [\<lparr>title = ustr ''Q1'', alternativas = [ustr ''x'', ustr ''y''], correta_idx = 0\<rparr>,
           \<lparr>title = ustr ''Q2'', alternativas = [ustr ''z'', ustr ''w''], correta_idx = 1\<rparr>] =
     length (filter (\<lambda>l. match_inicio (strip l))
       (splitlines (strip_nl
          (ustr ''P1: Q1\<newline>A) x\<newline>B) y\<newline>G: A\<newline>P2: Q2\<newline>A) z\<newline>B) w\<newline>G: B'')))) \<and>
   [\<lparr>title = ustr ''Q1'', alternativas = [ustr ''x'', ustr ''y''], correta_idx = 0\<rparr>,
    \<lparr>title = ustr ''Q2'', alternativas = [ustr ''z'', ustr ''w''], correta_idx = 1\<rparr>] ! 1 =
     pergunta_of [ustr ''Q2'', ustr ''A) z'', ustr ''B) w'', ustr ''G: B'']"
proof -
  have h: "parse_bloco
      (ustr ''P1: Q1\<newline>A) x\<newline>B) y\<newline>G: A\<newline>P2: Q2\<newline>A) z\<newline>B) w\<newline>G: B'') =
      Inr [\<lparr>title = ustr ''Q1'', alternativas = [ustr ''x'', ustr ''y''], correta_idx = 0\<rparr>,
           \<lparr>title = ustr ''Q2'', alternativas = [ustr ''z'', ustr ''w''], correta_idx = 1\<rparr>]"
    by code_simp
  have t: "trechos (splitlines (strip_nl
      (ustr ''P1: Q1\<newline>A) x\<newline>B) y\<newline>G: A\<newline>P2: Q2\<newline>A) z\<newline>B) w\<newline>G: B''))) =
      [[], [ustr ''Q1'', ustr ''A) x'', ustr ''B) y'', ustr ''G: A''], [ustr ''Q2'', ustr ''A) z'', ustr ''B) w'', ustr ''G: B'']]"
    by code_simp
  have c: "linhas_of (hd [[], [ustr ''Q1'', ustr ''A) x'', ustr ''B) y'', ustr ''G: A''], [ustr ''Q2'', ustr ''A) z'', ustr ''B) w'', ustr ''G: B'']]) = [] \<and>
      (\<forall>seg\<in>set (tl [[], [ustr ''Q1'', ustr ''A) x'', ustr ''B) y'', ustr ''G: A''], [ustr ''Q2'', ustr ''A) z'', ustr ''B) w'', ustr ''G: B'']]).
         linhas_of seg \<noteq> [])"
    by code_simp
  have r: "length [\<lparr>title = ustr ''Q1'', alternativas = [ustr ''x'', ustr ''y''], correta_idx = 0\<rparr>,
           \<lparr>title = ustr ''Q2'', alternativas = [ustr ''z'', ustr ''w''], correta_idx = 1\<rparr>] =
     length (filter (\<lambda>l. match_inicio (strip l))
       (splitlines (strip_nl
          (ustr ''P1: Q1\<newline>A) x\<newline>B) y\<newline>G: A\<newline>P2: Q2\<newline>A) z\<newline>B) w\<newline>G: B'')))) \<and>
     (\<forall>i<length [\<lparr>title = ustr ''Q1'', alternativas = [ustr ''x'', ustr ''y''], correta_idx = 0\<rparr>,
           \<lparr>title = ustr ''Q2'', alternativas = [ustr ''z'', ustr ''w''], correta_idx = 1\<rparr>].
        [\<lparr>title = ustr ''Q1'', alternativas = [ustr ''x'', ustr ''y''], correta_idx = 0\<rparr>,
         \<lparr>title = ustr ''Q2'', alternativas = [ustr ''z'', ustr ''w''], correta_idx = 1\<rparr>] ! i =
        pergunta_of (tl [[], [ustr ''Q1'', ustr ''A) x'', ustr ''B) y'', ustr ''G: A''], [ustr ''Q2'', ustr ''A) z'', ustr ''B) w'', ustr ''G: B'']] ! i))"
    using conjunct2[OF conjunct2[OF questions_follow_blocks[OF h]]] c
    unfolding t by (rule mp)
  note a = conjunct2[OF r]
  have i: "(1::nat) < length [\<lparr>title = ustr ''Q1'', alternativas = [ustr ''x'', ustr ''y''], correta_idx = 0\<rparr>,
           \<lparr>title = ustr ''Q2'', alternativas = [ustr ''z'', ustr ''w''], correta_idx = 1\<rparr>]"
    by simp
  have e: "[\<lparr>title = ustr ''Q1'', alternativas = [ustr ''x'', ustr ''y''], correta_idx = 0\<rparr>,
    \<lparr>title = ustr ''Q2'', alternativas = [ustr ''z'', ustr ''w''], correta_idx = 1\<rparr>] ! 1 =
     pergunta_of (tl [[], [ustr ''Q1'', ustr ''A) x'', ustr ''B) y'', ustr ''G: A''], [ustr ''Q2'', ustr ''A) z'', ustr ''B) w'', ustr ''G: B'']] ! 1)"
    by (rule a[rule_format, OF i])
  have n: "tl [[], [ustr ''Q1'', ustr ''A) x'', ustr ''B) y'', ustr ''G: A''], [ustr ''Q2'', ustr ''A) z'', ustr ''B) w'', ustr ''G: B'']] ! 1 =
      [ustr ''Q2'', ustr ''A) z'', ustr ''B) w'', ustr ''G: B'']"
    by simp
  have "[\<lparr>title = ustr ''Q1'', alternativas = [ustr ''x'', ustr ''y''], correta_idx = 0\<rparr>,
    \<lparr>title = ustr ''Q2'', alternativas = [ustr ''z'', ustr ''w''], correta_idx = 1\<rparr>] ! 1 =
     pergunta_of [ustr ''Q2'', ustr ''A) z'', ustr ''B) w'', ustr ''G: B'']"
    using e by (simp only: n)
  with conjunct1[OF r] show ?thesis by (rule conjI)
qed

theorem question_per_marker_counterexample:
  "splitlines (strip_nl (ustr ''P1:\<newline>P2: Q\<newline>A) x\<newline>B) y\<newline>G: A'')) =
     [ustr ''P1:'', ustr ''P2: Q'', ustr ''A) x'', ustr ''B) y'', ustr ''G: A''] \<and>
   match_inicio (strip (ustr ''P1:'')) \<and> match_inicio (strip (ustr ''P2: Q'')) \<and>
   parse_bloco (ustr ''P1:\<newline>P2: Q\<newline>A) x\<newline>B) y\<newline>G: A'') =
     Inr [\<lparr>title = ustr ''Q'', alternativas = [ustr ''x'', ustr ''y''], correta_idx = 0\<rparr>] \<and>
   parse_bloco (ustr ''intro\<newline>A) x\<newline>B) y\<newline>G: A\<newline>P1: Q\<newline>A) x\<newline>B) y\<newline>G: B'') =
     Inr [\<lparr>title = ustr ''intro'', alternativas = [ustr ''x'', ustr ''y''], correta_idx = 0\<rparr>,
          \<lparr>title = ustr ''Q'', alternativas = [ustr ''x'', ustr ''y''], correta_idx = 1\<rparr>]"
  by code_simp

section \<open>One question for each block\<close>

lemma bloco_valido_linhas:
  "linhas_of b = linhas_of b' \<Longrightarrow> bloco_valido b = bloco_valido b'"
  by (simp add: bloco_valido_def bloco_alternativas_def bloco_gabaritos_def bloco_letras_def)

lemma bloco_valido_conteudo: "bloco_valido b \<Longrightarrow> linhas_of b \<noteq> []"
proof
  assume v: "bloco_valido b" and e: "linhas_of b = []"
  have "bloco_alternativas b = []" by (simp add: bloco_alternativas_def e map_filter_Nil)
  with v show False by (simp add: bloco_valido_def)
qed

lemma validos_linhas:
  assumes "map linhas_of xs = map linhas_of ys" "\<forall>y\<in>set ys. bloco_valido y"
  shows "\<forall>x\<in>set xs. bloco_valido x"
  using assms
proof (induction xs arbitrary: ys)
  case Nil
  then show ?case by simp
next
  case (Cons x xs)
  then obtain y ys' where y: "ys = y # ys'" by (cases ys) auto
  with Cons.prems have l: "linhas_of x = linhas_of y" and m: "map linhas_of xs = map linhas_of ys'"
    and v: "bloco_valido y" and vs: "\<forall>y\<in>set ys'. bloco_valido y" by simp_all
  have "bloco_valido x" using bloco_valido_linhas[OF l] v by simp
  moreover have "\<forall>x\<in>set xs. bloco_valido x" using Cons.IH[OF m vs] .
  ultimately show ?case by simp
qed

text \<open>
  C1, as the code has it. The blocks of an input are its pieces cut at the
  question-start lines; the text before the first question-start line, when it has
  a non-blank line, is read as a block of its own. When that leading text is blank
  or validates, every block of a question-start line validates, and there is a
  block, the parser returns one question for each block, in order. The title of a
  question is the first non-blank line of its block, trimmed; its choices are the
  texts of the alternative lines in the order they occur; its index is a position
  of the choices at which the letter of the alternative is the letter of the
  answer key.
\<close>

theorem one_question_per_block:
  assumes "linhas_of (hd (trechos (splitlines (strip_nl bloco)))) = [] \<or>
           bloco_valido (hd (trechos (splitlines (strip_nl bloco))))"
      and "\<forall>seg\<in>set (tl (trechos (splitlines (strip_nl bloco)))). bloco_valido seg"
      and "tl (trechos (splitlines (strip_nl bloco))) \<noteq> [] \<or>
           linhas_of (hd (trechos (splitlines (strip_nl bloco)))) \<noteq> []"
  shows "parse_bloco bloco =
           Inr (map pergunta_of
             (if linhas_of (hd (trechos (splitlines (strip_nl bloco)))) = []
              then tl (trechos (splitlines (strip_nl bloco)))
              else trechos (splitlines (strip_nl bloco)))) \<and>
         (\<forall>seg\<in>set (trechos (splitlines (strip_nl bloco))). bloco_valido seg \<longrightarrow>
            title (pergunta_of seg) = bloco_titulo seg \<and>
            alternativas (pergunta_of seg) = bloco_textos seg \<and>
            length (bloco_textos seg) = length (bloco_letras seg) \<and>
            correta_idx (pergunta_of seg) < length (bloco_letras seg) \<and>
            bloco_letras seg ! correta_idx (pergunta_of seg) = lower (last (bloco_gabaritos seg)))"
proof
  define ls where "ls = splitlines (strip_nl bloco)"
  define F where "F = (if linhas_of (hd (trechos ls)) = [] then tl (trechos ls) else trechos ls)"
  have t: "trechos ls = hd (trechos ls) # tl (trechos ls)" using trechos_not_Nil by simp
  have tlv: "\<forall>seg\<in>set (tl (trechos ls)). linhas_of seg \<noteq> []"
    using assms(2) bloco_valido_conteudo by (auto simp: ls_def)
  have "filter (\<lambda>seg. linhas_of seg \<noteq> []) (hd (trechos ls) # tl (trechos ls)) =
      (if linhas_of (hd (trechos ls)) = [] then tl (trechos ls)
       else hd (trechos ls) # tl (trechos ls))"
    using tlv by simp
  then have f: "filter (\<lambda>seg. linhas_of seg \<noteq> []) (trechos ls) = F"
    using t by (simp add: F_def)
  have fv: "\<forall>seg\<in>set F. bloco_valido seg"
  proof
    fix seg assume "seg \<in> set F"
    moreover have "set (trechos ls) = insert (hd (trechos ls)) (set (tl (trechos ls)))"
      by (subst t) simp
    ultimately have "seg \<in> set (tl (trechos ls)) \<or> (seg = hd (trechos ls) \<and> linhas_of (hd (trechos ls)) \<noteq> [])"
      by (auto simp: F_def split: if_splits)
    then show "bloco_valido seg" using assms(1,2) by (auto simp: ls_def)
  qed
  have fne: "F \<noteq> []" using assms(3) t by (auto simp: F_def ls_def)
  have m: "map linhas_of (split_blocos ls) = map linhas_of F"
    using split_blocos_trechos[of ls] by (simp only: f)
  have bv: "\<forall>b\<in>set (split_blocos ls). bloco_valido b" using validos_linhas[OF m fv] .
  have "length (split_blocos ls) = length F" using arg_cong[OF m, of length] by simp
  then have bne: "split_blocos ls \<noteq> []" using fne by auto
  have "parse_bloco bloco = Inr (map pergunta_of (split_blocos ls))"
    using parse_bloco_blocos_validos[of bloco "split_blocos ls"] bne bv by (simp add: ls_def)
  also have "map pergunta_of (split_blocos ls) = map pergunta_of F"
    by (rule map_pergunta_of_linhas[OF m]) (simp add: split_blocos_linhas)
  finally show "parse_bloco bloco =
           Inr (map pergunta_of
             (if linhas_of (hd (trechos (splitlines (strip_nl bloco)))) = []
              then tl (trechos (splitlines (strip_nl bloco)))
              else trechos (splitlines (strip_nl bloco))))"
    by (simp add: F_def ls_def)
  show "\<forall>seg\<in>set (trechos (splitlines (strip_nl bloco))). bloco_valido seg \<longrightarrow>
            title (pergunta_of seg) = bloco_titulo seg \<and>
            alternativas (pergunta_of seg) = bloco_textos seg \<and>
            length (bloco_textos seg) = length (bloco_letras seg) \<and>
            correta_idx (pergunta_of seg) < length (bloco_letras seg) \<and>
            bloco_letras seg ! correta_idx (pergunta_of seg) = lower (last (bloco_gabaritos seg))"
  proof (intro ballI impI)
    fix seg assume "bloco_valido seg"
    then have "lower (last (bloco_gabaritos seg)) \<in> set (bloco_letras seg)"
      by (simp add: bloco_valido_def)
    then have "index_of (lower (last (bloco_gabaritos seg))) (bloco_letras seg) < length (bloco_letras seg) \<and>
       bloco_letras seg ! index_of (lower (last (bloco_gabaritos seg))) (bloco_letras seg) =
         lower (last (bloco_gabaritos seg))"
      by (rule index_of_nth)
    then show "title (pergunta_of seg) = bloco_titulo seg \<and>
            alternativas (pergunta_of seg) = bloco_textos seg \<and>
            length (bloco_textos seg) = length (bloco_letras seg) \<and>
            correta_idx (pergunta_of seg) < length (bloco_letras seg) \<and>
            bloco_letras seg ! correta_idx (pergunta_of seg) = lower (last (bloco_gabaritos seg))"
      by (simp add: pergunta_of_def bloco_textos_def bloco_letras_def)
  qed
qed

theorem one_question_per_block_witness:
  "parse_bloco (ustr ''P1: Why is safety important?\<newline>A) Reason one\<newline>B) Reason two\<newline>G: B'') =
     Inr [\<lparr>title = ustr ''Why is safety important?'',
           alternativas = [ustr ''Reason one'', ustr ''Reason two''], correta_idx = 1\<rparr>]"
proof -
  have t: "trechos (splitlines (strip_nl
      (ustr ''P1: Why is safety important?\<newline>A) Reason one\<newline>B) Reason two\<newline>G: B''))) =
      [[], [ustr ''Why is safety important?'', ustr ''A) Reason one'', ustr ''B) Reason two'',
            ustr ''G: B'']]"
    by code_simp
  have h1: "linhas_of (hd [[], [ustr ''Why is safety important?'', ustr ''A) Reason one'',
        ustr ''B) Reason two'', ustr ''G: B'']]) = [] \<or>
      bloco_valido (hd [[], [ustr ''Why is safety important?'', ustr ''A) Reason one'',
        ustr ''B) Reason two'', ustr ''G: B'']])"
    by code_simp
  have h2: "\<forall>seg\<in>set (tl [[], [ustr ''Why is safety important?'', ustr ''A) Reason one'',
        ustr ''B) Reason two'', ustr ''G: B'']]). bloco_valido seg"
    by code_simp
  have h3: "tl [[], [ustr ''Why is safety important?'', ustr ''A) Reason one'',
        ustr ''B) Reason two'', ustr ''G: B'']] \<noteq> [] \<or>
      linhas_of (hd [[], [ustr ''Why is safety important?'', ustr ''A) Reason one'',
        ustr ''B) Reason two'', ustr ''G: B'']]) \<noteq> []"
    by simp
  have v: "map pergunta_of
      (if linhas_of (hd [[], [ustr ''Why is safety important?'', ustr ''A) Reason one'',
            ustr ''B) Reason two'', ustr ''G: B'']]) = []
       then tl [[], [ustr ''Why is safety important?'', ustr ''A) Reason one'',
            ustr ''B) Reason two'', ustr ''G: B'']]
       else [[], [ustr ''Why is safety important?'', ustr ''A) Reason one'',
            ustr ''B) Reason two'', ustr ''G: B'']]) =
     [\<lparr>title = ustr ''Why is safety important?'',
           alternativas = [ustr ''Reason one'', ustr ''Reason two''], correta_idx = 1\<rparr>]"
    by code_simp
  show ?thesis
    using conjunct1[OF one_question_per_block[of
      "ustr ''P1: Why is safety important?\<newline>A) Reason one\<newline>B) Reason two\<newline>G: B''",
      unfolded t, OF h1 h2 h3]]
    by (simp only: v)
qed

theorem leading_text_counterexample:
  "trechos (splitlines (strip_nl (ustr ''Prova 1\<newline>P1: Q\<newline>A) x\<newline>B) y\<newline>G: A''))) =
     [[ustr ''Prova 1''], [ustr ''Q'', ustr ''A) x'', ustr ''B) y'', ustr ''G: A'']] \<and>
   bloco_valido [ustr ''Q'', ustr ''A) x'', ustr ''B) y'', ustr ''G: A''] \<and>
   parse_bloco (ustr ''Prova 1\<newline>P1: Q\<newline>A) x\<newline>B) y\<newline>G: A'') =
     Inl (InsufficientChoices (ustr ''Prova 1''))"
  by code_simp

section \<open>The case of the marker letters\<close>

lemma lower_ascii_not_space: "\<not> is_space c \<Longrightarrow> \<not> is_space (lower_ascii c)"
  by (auto simp: is_space_def lower_ascii_def)

lemma lower_lower_ascii: "lower (lower_ascii c) = lower c"
  by (auto simp: lower_def lower_ascii_def)

lemma is_letter_lower_ascii: "is_letter (lower_ascii c) = is_letter c"
  by (auto simp: is_letter_def lower_ascii_def)

lemma is_P_lower_ascii: "is_P (lower_ascii c) = is_P c"
  by (auto simp: is_P_def lower_ascii_def)

lemma is_G_lower_ascii: "is_G (lower_ascii c) = is_G c"
  by (auto simp: is_G_def lower_ascii_def)

lemma lower_not_colon: "is_P c \<Longrightarrow> c \<noteq> 58 \<and> lower_ascii c \<noteq> 58"
  by (auto simp: is_P_def lower_ascii_def)

lemma is_G_not_P: "is_G c \<Longrightarrow> \<not> is_P c"
  by (auto simp: is_P_def is_G_def)

lemma is_G_not_space: "is_G c \<Longrightarrow> \<not> is_space c"
  by (auto simp: is_G_def is_space_def)

lemma colon_not_space: "\<not> is_space 58"
  by (simp add: is_space_def)

lemma paren_not_digit: "\<not> is_digit 41"
  by (simp add: is_digit_def digit_ranges_def)

lemma strip_com_margens:
  assumes "s \<noteq> []" "\<not> is_space (hd s)" "\<not> is_space (last s)"
  shows "strip (com_margens l s) = s"
proof -
  define w1 where "w1 = takeWhile is_space l"
  define w2 where "w2 = rev (takeWhile is_space (rev (dropWhile is_space l)))"
  have a1: "\<forall>c\<in>set w1. is_space c" unfolding w1_def by (auto dest: set_takeWhileD)
  have a2: "\<forall>c\<in>set (rev w2). is_space c" unfolding w2_def by (auto dest: set_takeWhileD)
  obtain c cs where s: "s = c # cs" using assms(1) by (cases s) auto
  have c: "\<not> is_space c" using assms(2) s by simp
  have "dropWhile is_space (w1 @ s @ w2) = dropWhile is_space (s @ w2)"
    using a1 by (simp add: dropWhile_append)
  also have "\<dots> = s @ w2" using c s by simp
  finally have d1: "dropWhile is_space (w1 @ s @ w2) = s @ w2" .
  have r: "rev s \<noteq> [] \<and> \<not> is_space (hd (rev s))"
    using assms(1,3) by (simp add: hd_rev)
  have "dropWhile is_space (rev (s @ w2)) = dropWhile is_space (rev w2 @ rev s)" by simp
  also have "\<dots> = dropWhile is_space (rev s)" using a2 by (simp only: dropWhile_append) simp
  also have "\<dots> = rev s" using r by (simp add: dropWhile_fix)
  finally have d2: "dropWhile is_space (rev (s @ w2)) = rev s" .
  show ?thesis
    by (simp only: strip_def com_margens_def w1_def[symmetric] w2_def[symmetric] d1 d2 rev_rev_ident)
qed

lemma lower_hd_ends:
  assumes "s \<noteq> []" "\<not> is_space (hd s)" "\<not> is_space (last s)"
  shows "lower_hd s \<noteq> [] \<and> \<not> is_space (hd (lower_hd s)) \<and> \<not> is_space (last (lower_hd s))"
proof -
  obtain c cs where s: "s = c # cs" using assms(1) by (cases s) auto
  show ?thesis using assms(2,3) by (cases cs) (simp_all add: s lower_hd_def lower_ascii_not_space)
qed

lemma lower_first_Nil: "(lower_first cs = []) = (cs = [])"
  by (cases cs) simp_all

lemma last_lower_first:
  "cs \<noteq> [] \<Longrightarrow> \<not> is_space (last cs) \<Longrightarrow> \<not> is_space (last (lower_first cs))"
proof (induction cs)
  case Nil
  then show ?case by simp
next
  case (Cons c cs)
  show ?case
  proof (cases "is_space c")
    case True
    with Cons show ?thesis by (cases cs) (simp_all add: lower_first_Nil)
  next
    case False
    with Cons.prems show ?thesis by (cases cs) (simp_all add: lower_ascii_not_space)
  qed
qed

lemma dropWhile_lower_first:
  "dropWhile is_space (lower_first cs) =
     (case dropWhile is_space cs of [] \<Rightarrow> [] | k # r \<Rightarrow> lower_ascii k # r)"
  by (induction cs) (simp_all add: lower_ascii_not_space)

lemma match_g_shape:
  assumes "match_g s = Some k"
  shows "\<exists>g cs r. s = g # 58 # cs \<and> is_G g \<and> dropWhile is_space cs = k # r \<and> is_letter k"
proof -
  obtain g p cs where s: "s = g # p # cs"
    using assms by (cases s; cases "tl s") (auto simp: match_g_def)
  with assms have g: "is_G g" "p = 58" by (auto simp: match_g_def split: if_splits)
  with assms s obtain k' r where d: "dropWhile is_space cs = k' # r"
    by (cases "dropWhile is_space cs") (auto simp: match_g_def)
  with assms s g have "is_letter k'" "k' = k" by (auto simp: match_g_def split: if_splits)
  with s g d show ?thesis by blast
qed

lemma match_alt_shape:
  assumes "match_alt s = Some (c, t)"
  shows "\<exists>cs. s = c # 41 # cs \<and> is_letter c \<and> match_resto cs = Some t"
proof -
  obtain c' p cs where s: "s = c' # p # cs"
    using assms by (cases s; cases "tl s") (auto simp: match_alt_def)
  with assms show ?thesis
    by (auto simp: match_alt_def split: if_splits option.splits)
qed

lemma lower_gabarito_ends:
  assumes "match_g s = Some k" "\<not> is_space (last s)"
  shows "lower_gabarito s \<noteq> [] \<and> \<not> is_space (hd (lower_gabarito s)) \<and>
         \<not> is_space (last (lower_gabarito s))"
proof -
  obtain g cs r where s: "s = g # 58 # cs" and g: "is_G g"
    and d: "dropWhile is_space cs = k # r"
    using match_g_shape[OF assms(1)] by blast
  have cs: "cs \<noteq> []" using d by auto
  then have "\<not> is_space (last cs)" using assms(2) s by simp
  then have l: "\<not> is_space (last (lower_first cs))" using cs by (simp add: last_lower_first)
  have "\<not> is_space g" using g by (rule is_G_not_space)
  then have "\<not> is_space (lower_ascii g)" by (rule lower_ascii_not_space)
  then show ?thesis using l cs by (simp add: s lower_gabarito_def lower_first_Nil)
qed

lemma match_inicio_lower_hd: "match_inicio (lower_hd s) = match_inicio s"
  by (cases s) (simp_all add: lower_hd_def match_inicio_def is_P_lower_ascii)

lemma depois_of_lower_hd:
  assumes "match_inicio s"
  shows "depois_of (lower_hd s) = depois_of s"
proof -
  obtain c cs where s: "s = c # cs" and p: "is_P c"
    using assms by (cases s) (auto simp: match_inicio_def)
  have n: "c \<noteq> 58" "lower_ascii c \<noteq> 58" "58 \<noteq> c" "58 \<noteq> lower_ascii c"
    using lower_not_colon[OF p] by auto
  show ?thesis using n by (simp add: s lower_hd_def depois_of_def)
qed

lemma match_alt_not_inicio:
  assumes "match_alt s \<noteq> None"
  shows "\<not> match_inicio s"
proof -
  obtain c t where "match_alt s = Some (c, t)" using assms by (cases "match_alt s") auto
  then obtain cs where "s = c # 41 # cs" using match_alt_shape by blast
  then show ?thesis by (simp add: match_inicio_def paren_not_digit)
qed

lemma match_g_not_inicio:
  assumes "match_g s \<noteq> None"
  shows "\<not> match_inicio s \<and> \<not> match_inicio (lower_gabarito s)"
proof -
  obtain k where "match_g s = Some k" using assms by (cases "match_g s") auto
  then obtain g cs where s: "s = g # 58 # cs" and g: "is_G g"
    using match_g_shape by blast
  have "\<not> is_P g" using g by (rule is_G_not_P)
  moreover have "\<not> is_P (lower_ascii g)" using g is_G_not_P is_G_lower_ascii by blast
  ultimately show ?thesis by (simp add: s match_inicio_def lower_gabarito_def)
qed

lemma match_alt_lower_hd:
  assumes "match_alt s = Some (c, t)"
  shows "match_alt (lower_hd s) = Some (lower_ascii c, t)"
proof -
  obtain cs where s: "s = c # 41 # cs" and "is_letter c" "match_resto cs = Some t"
    using match_alt_shape[OF assms] by blast
  then show ?thesis by (simp add: lower_hd_def match_alt_def is_letter_lower_ascii)
qed

lemma match_g_lower_gabarito:
  assumes "match_g s = Some k"
  shows "match_alt (lower_gabarito s) = None \<and> match_g (lower_gabarito s) = Some (lower_ascii k)"
proof -
  obtain g cs r where s: "s = g # 58 # cs" and g: "is_G g"
    and d: "dropWhile is_space cs = k # r" and k: "is_letter k"
    using match_g_shape[OF assms] by blast
  have "dropWhile is_space (lower_first cs) = lower_ascii k # r"
    by (simp add: dropWhile_lower_first d)
  then show ?thesis using g k
    by (simp add: s lower_gabarito_def match_alt_def match_g_def is_G_lower_ascii is_letter_lower_ascii)
qed

lemma scan_step_canon_trim: "scan_step st (canon_trim s) = scan_step st s"
proof (cases "match_alt s")
  case (Some a)
  obtain c t where a: "a = (c, t)" by (cases a)
  have "match_alt (lower_hd s) = Some (lower_ascii c, t)" using Some a match_alt_lower_hd by simp
  then show ?thesis
    by (cases st) (simp add: canon_trim_def Some a scan_step_def lower_lower_ascii)
next
  case None
  show ?thesis
  proof (cases "match_g s")
    case g: None
    then show ?thesis by (simp add: canon_trim_def None)
  next
    case g: (Some k)
    have "match_alt (lower_gabarito s) = None \<and> match_g (lower_gabarito s) = Some (lower_ascii k)"
      using g by (rule match_g_lower_gabarito)
    then show ?thesis
      by (cases st) (simp add: canon_trim_def None g scan_step_def lower_lower_ascii)
  qed
qed

lemma match_alt_Nil: "match_alt [] = None"
  by (simp add: match_alt_def)

lemma match_g_Nil: "match_g [] = None"
  by (simp add: match_g_def)

lemma strip_canon_linha: "strip (canon_linha l) = canon_trim (strip l)"
proof (cases "match_alt (strip l)")
  case (Some a)
  then have ne: "strip l \<noteq> []" using match_alt_Nil by auto
  have "lower_hd (strip l) \<noteq> [] \<and> \<not> is_space (hd (lower_hd (strip l))) \<and>
      \<not> is_space (last (lower_hd (strip l)))"
    using ne strip_ends[OF ne] by (intro lower_hd_ends)
  then have "strip (com_margens l (lower_hd (strip l))) = lower_hd (strip l)"
    by (intro strip_com_margens) simp_all
  then show ?thesis by (simp add: canon_linha_def canon_trim_def Some)
next
  case None
  show ?thesis
  proof (cases "match_g (strip l)")
    case g: None
    then show ?thesis by (simp add: canon_linha_def canon_trim_def None)
  next
    case g: (Some k)
    then have ne: "strip l \<noteq> []" using match_g_Nil by auto
    have "lower_gabarito (strip l) \<noteq> [] \<and> \<not> is_space (hd (lower_gabarito (strip l))) \<and>
        \<not> is_space (last (lower_gabarito (strip l)))"
      using g strip_ends(2)[OF ne] by (intro lower_gabarito_ends)
    then have "strip (com_margens l (lower_gabarito (strip l))) = lower_gabarito (strip l)"
      by (intro strip_com_margens) simp_all
    then show ?thesis by (simp add: canon_linha_def canon_trim_def None g)
  qed
qed

lemma lower_hd_Nil: "(lower_hd s = []) = (s = [])"
  by (cases s) (simp_all add: lower_hd_def)

lemma canon_trim_Nil: "(canon_trim s = []) = (s = [])"
proof (cases "match_alt s")
  case (Some a)
  then have "s \<noteq> []" using match_alt_Nil by auto
  then show ?thesis by (simp add: canon_trim_def Some lower_hd_Nil)
next
  case None
  show ?thesis
  proof (cases "match_g s")
    case g: None
    then show ?thesis by (simp add: canon_trim_def None)
  next
    case g: (Some k)
    then obtain c cs where sh: "s = c # 58 # cs" using match_g_shape by blast
    have a: "lower_gabarito s \<noteq> []" by (simp add: sh lower_gabarito_def)
    have b: "s \<noteq> []" by (simp add: sh)
    show ?thesis using a b by (simp add: canon_trim_def None g)
  qed
qed

lemma canon_trim_not_inicio: "\<not> match_inicio s \<Longrightarrow> \<not> match_inicio (canon_trim s)"
  using match_g_not_inicio[of s] by (auto simp: canon_trim_def match_inicio_lower_hd)

lemma canon_linha_Nil: "canon_linha [] = []"
  by (simp add: canon_linha_def strip_Nil match_alt_Nil match_g_Nil)

lemma canon_bloco_Nil: "(canon_bloco a = []) = (a = [])"
  by (cases a) (simp_all add: canon_bloco_def)

lemma canon_bloco_snoc: "a \<noteq> [] \<Longrightarrow> canon_bloco (a @ [x]) = canon_bloco a @ [canon_linha x]"
  by (cases a) (simp_all add: canon_bloco_def)

lemma canon_bloco_empty: "canon_bloco [] = []"
  by (simp add: canon_bloco_def)

lemma canon_bloco_single: "canon_bloco [x] = [x]"
  by (simp add: canon_bloco_def)

lemma strip_marker_canon:
  assumes "strip l \<noteq> []"
  shows "strip (com_margens l (lower_hd (strip l))) = lower_hd (strip l)"
proof -
  have "lower_hd (strip l) \<noteq> [] \<and> \<not> is_space (hd (lower_hd (strip l))) \<and>
      \<not> is_space (last (lower_hd (strip l)))"
    using assms strip_ends[OF assms] by (intro lower_hd_ends)
  then show ?thesis by (intro strip_com_margens) simp_all
qed

lemma foldl_split_canon:
  "foldl split_step (map canon_bloco bs, canon_bloco a) (canon_linhas (a \<noteq> []) ls) =
     (case foldl split_step (bs, a) ls of (bs', a') \<Rightarrow> (map canon_bloco bs', canon_bloco a'))"
proof (induction ls arbitrary: bs a)
  case Nil
  show ?case by simp
next
  case (Cons l ls)
  show ?case
  proof (cases "strip l = []")
    case True
    define a1 where "a1 = (if a \<noteq> [] then a @ [[]] else a)"
    have st: "split_step (bs, a) l = (bs, a1)" by (simp add: split_step_def True a1_def)
    have st': "split_step (map canon_bloco bs, canon_bloco a) l = (map canon_bloco bs, canon_bloco a1)"
      by (simp add: split_step_def True a1_def canon_bloco_Nil canon_bloco_snoc canon_linha_Nil)
    have fl: "(a1 \<noteq> []) = (a \<noteq> [])" by (simp add: a1_def)
    have cl: "canon_linhas (a \<noteq> []) (l # ls) = l # canon_linhas (a1 \<noteq> []) ls"
      by (simp add: True fl)
    show ?thesis using Cons.IH[of bs a1] by (simp only: cl foldl_Cons st st')
  next
    case nb: False
    show ?thesis
    proof (cases "match_inicio (strip l)")
      case True
      define d where "d = depois_of (strip l)"
      define bs1 where "bs1 = (if a \<noteq> [] then bs @ [a] else bs)"
      define a1 where "a1 = (if d \<noteq> [] then [d] else [])"
      define l' where "l' = com_margens l (lower_hd (strip l))"
      have st: "split_step (bs, a) l = (bs1, a1)"
        by (simp add: split_step_def nb True Let_def bs1_def a1_def d_def)
      have s': "strip l' = lower_hd (strip l)" unfolding l'_def using nb by (rule strip_marker_canon)
      have m': "match_inicio (strip l')" by (simp add: s' match_inicio_lower_hd True)
      have d': "depois_of (strip l') = d" by (simp add: s' d_def depois_of_lower_hd True)
      have n': "strip l' \<noteq> []" using nb by (simp add: s' lower_hd_Nil)
      have st': "split_step (map canon_bloco bs, canon_bloco a) l' = (map canon_bloco bs1, canon_bloco a1)"
        by (simp add: split_step_def n' m' d' Let_def bs1_def a1_def canon_bloco_Nil canon_bloco_single
            canon_bloco_empty)
      have fl: "(a1 \<noteq> []) = (depois_of (strip l) \<noteq> [])" by (simp add: a1_def d_def)
      have cl: "canon_linhas (a \<noteq> []) (l # ls) = l' # canon_linhas (a1 \<noteq> []) ls"
        by (simp add: nb True fl l'_def)
      show ?thesis using Cons.IH[of bs1 a1] by (simp only: cl foldl_Cons st st')
    next
      case nm: False
      have st: "split_step (bs, a) l = (bs, a @ [l])"
        by (simp add: split_step_def nb nm)
      show ?thesis
      proof (cases "a = []")
        case True
        have st': "split_step (map canon_bloco bs, canon_bloco a) l =
            (map canon_bloco bs, canon_bloco (a @ [l]))"
          by (simp add: split_step_def nb nm True canon_bloco_def)
        have cl: "canon_linhas (a \<noteq> []) (l # ls) = l # canon_linhas (a @ [l] \<noteq> []) ls"
          by (simp add: nb nm True)
        show ?thesis using Cons.IH[of bs "a @ [l]"] by (simp only: cl foldl_Cons st st')
      next
        case False
        have s': "strip (canon_linha l) = canon_trim (strip l)" by (rule strip_canon_linha)
        have n': "strip (canon_linha l) \<noteq> []" using nb by (simp add: s' canon_trim_Nil)
        have m': "\<not> match_inicio (strip (canon_linha l))"
          using nm by (simp add: s' canon_trim_not_inicio)
        have st': "split_step (map canon_bloco bs, canon_bloco a) (canon_linha l) =
            (map canon_bloco bs, canon_bloco (a @ [l]))"
          by (simp add: split_step_def n' m' canon_bloco_snoc[OF False])
        have cl: "canon_linhas (a \<noteq> []) (l # ls) = canon_linha l # canon_linhas (a @ [l] \<noteq> []) ls"
          by (simp add: nb nm False)
        show ?thesis using Cons.IH[of bs "a @ [l]"] by (simp only: cl foldl_Cons st st')
      qed
    qed
  qed
qed

lemma split_blocos_canon:
  "split_blocos (canon_linhas False ls) = map canon_bloco (split_blocos ls)"
proof -
  have "foldl split_step ([], []) (canon_linhas False ls) =
      (case foldl split_step ([], []) ls of (bs', a') \<Rightarrow> (map canon_bloco bs', canon_bloco a'))"
    using foldl_split_canon[of "[]" "[]" ls] by (simp add: canon_bloco_def)
  then show ?thesis
    by (cases "foldl split_step ([], []) ls") (simp add: split_blocos_def canon_bloco_Nil)
qed

lemma linhas_of_map_canon: "linhas_of (map canon_linha xs) = map canon_trim (linhas_of xs)"
  by (induction xs) (simp_all add: linhas_of_Nil linhas_of_Cons strip_canon_linha canon_trim_Nil)

lemma linhas_of_canon_bloco:
  assumes "b \<noteq> []" "strip (hd b) \<noteq> []"
  shows "linhas_of b = strip (hd b) # linhas_of (tl b)"
    and "linhas_of (canon_bloco b) = strip (hd b) # map canon_trim (linhas_of (tl b))"
  using assms by (cases b; simp add: canon_bloco_def linhas_of_Cons linhas_of_map_canon)+

lemma foldl_scan_canon: "foldl scan_step st (map canon_trim xs) = foldl scan_step st xs"
  by (induction xs arbitrary: st) (simp_all add: scan_step_canon_trim)

lemma parse_linhas_canon: "parse_linhas (x # map canon_trim xs) = parse_linhas (x # xs)"
  by (simp add: parse_linhas_def foldl_scan_canon)

lemma parse_blocos_canon:
  assumes "\<forall>b\<in>set bs. b \<noteq> [] \<and> strip (hd b) \<noteq> []"
  shows "parse_blocos ps (map canon_bloco bs) = parse_blocos ps bs"
  using assms
proof (induction bs arbitrary: ps)
  case Nil
  show ?case by simp
next
  case (Cons b bs)
  then have b: "b \<noteq> []" "strip (hd b) \<noteq> []" by simp_all
  have l: "linhas_of b = strip (hd b) # linhas_of (tl b)"
    and c: "linhas_of (canon_bloco b) = strip (hd b) # map canon_trim (linhas_of (tl b))"
    using linhas_of_canon_bloco[OF b] by simp_all
  have "parse_linhas (linhas_of (canon_bloco b)) = parse_linhas (linhas_of b)"
    by (simp only: l c parse_linhas_canon)
  then show ?case using Cons by (simp add: l c split: sum.splits)
qed

lemma splitlines_from_Nil: "(splitlines_from cur s = []) = (cur = [] \<and> s = [])"
  by (induction cur s rule: splitlines_from.induct) auto

lemma splitlines_Nil_iff: "(splitlines s = []) = (s = [])"
  by (simp add: splitlines_def splitlines_from_Nil)

lemma length_canon_linhas: "length (canon_linhas f ls) = length ls"
  by (induction ls arbitrary: f) simp_all

lemma parse_bloco_canon:
  assumes "splitlines (strip_nl bloco') = canon_linhas False (splitlines (strip_nl bloco))"
  shows "parse_bloco bloco' = parse_bloco bloco"
proof -
  define ls where "ls = splitlines (strip_nl bloco)"
  have "length (splitlines (strip_nl bloco')) = length ls"
    by (simp add: assms ls_def length_canon_linhas)
  then have "(splitlines (strip_nl bloco') = []) = (ls = [])" by auto
  then have e: "(strip_nl bloco' = []) = (strip_nl bloco = [])"
    by (simp add: ls_def splitlines_Nil_iff)
  have s: "split_blocos (splitlines (strip_nl bloco')) = map canon_bloco (split_blocos ls)"
    by (simp add: assms ls_def split_blocos_canon)
  have p: "parse_blocos [] (map canon_bloco (split_blocos ls)) = parse_blocos [] (split_blocos ls)"
    by (rule parse_blocos_canon) (simp add: split_blocos_titled)
  show ?thesis
    by (simp add: parse_bloco_cases e s p ls_def[symmetric])
qed

text \<open>
  C7, as the code has it. The P of a question-start line, the G of an answer-key
  line, and the letter of an alternative line or of an answer-key line when it is
  an ASCII letter, are read without regard to their case: an input parses as the
  input whose lines are its lines with these letters in lower case, and two inputs
  that have the same lines once these letters are in lower case parse alike.
  Titles and the texts of the alternatives are the same in both results.
\<close>

theorem marker_case_invariance:
  "(splitlines (strip_nl bloco') = canon_linhas False (splitlines (strip_nl bloco)) \<longrightarrow>
      parse_bloco bloco' = parse_bloco bloco) \<and>
   (canon_linhas False (splitlines (strip_nl bloco')) =
      canon_linhas False (splitlines (strip_nl bloco)) \<longrightarrow>
      parse_bloco bloco' = parse_bloco bloco)"
proof (intro conjI impI)
  assume "splitlines (strip_nl bloco') = canon_linhas False (splitlines (strip_nl bloco))"
  then show "parse_bloco bloco' = parse_bloco bloco" by (rule parse_bloco_canon)
next
  assume h: "canon_linhas False (splitlines (strip_nl bloco')) =
      canon_linhas False (splitlines (strip_nl bloco))"
  define ls where "ls = splitlines (strip_nl bloco)"
  define ls' where "ls' = splitlines (strip_nl bloco')"
  have "length ls' = length ls"
    using arg_cong[OF h, of length] by (simp add: ls_def ls'_def length_canon_linhas)
  then have "(ls' = []) = (ls = [])" by auto
  then have e: "(strip_nl bloco' = []) = (strip_nl bloco = [])"
    by (simp add: ls_def ls'_def splitlines_Nil_iff)
  have "split_blocos (canon_linhas False ls') = split_blocos (canon_linhas False ls)"
    using h by (simp add: ls_def ls'_def)
  then have m: "map canon_bloco (split_blocos ls') = map canon_bloco (split_blocos ls)"
    by (simp only: split_blocos_canon)
  have p: "parse_blocos [] (split_blocos ls') = parse_blocos [] (split_blocos ls)"
  proof -
    have "parse_blocos [] (split_blocos ls') = parse_blocos [] (map canon_bloco (split_blocos ls'))"
      by (rule parse_blocos_canon[symmetric]) (simp add: split_blocos_titled)
    also have "\<dots> = parse_blocos [] (map canon_bloco (split_blocos ls))" by (simp only: m)
    also have "\<dots> = parse_blocos [] (split_blocos ls)"
      by (rule parse_blocos_canon) (simp add: split_blocos_titled)
    finally show ?thesis .
  qed
  have "length (split_blocos ls') = length (split_blocos ls)"
    using arg_cong[OF m, of length] by simp
  then have n: "(split_blocos ls' = []) = (split_blocos ls = [])" by auto
  show "parse_bloco bloco' = parse_bloco bloco"
    by (simp add: parse_bloco_cases e n p ls_def[symmetric] ls'_def[symmetric])
qed

theorem marker_case_invariance_witness:
  "parse_bloco (ustr ''p1: Why?\<newline>  a) One\<newline>b) Two  \<newline>g:  b'') =
     parse_bloco (ustr ''P1: Why?\<newline>  A) One\<newline>B) Two  \<newline>G:  B'') \<and>
   parse_bloco (ustr ''p1: Why?\<newline>  A) One\<newline>b) Two  \<newline>G:  b'') =
     parse_bloco (ustr ''P1: Why?\<newline>  a) One\<newline>B) Two  \<newline>g:  B'') \<and>
   parse_bloco (ustr ''P1: Why?\<newline>  A) One\<newline>B) Two  \<newline>G:  B'') =
     Inr [\<lparr>title = ustr ''Why?'', alternativas = [ustr ''One'', ustr ''Two''], correta_idx = 1\<rparr>]"
proof (intro conjI)
  have h1: "splitlines (strip_nl (ustr ''p1: Why?\<newline>  a) One\<newline>b) Two  \<newline>g:  b'')) =
      canon_linhas False (splitlines (strip_nl (ustr ''P1: Why?\<newline>  A) One\<newline>B) Two  \<newline>G:  B'')))"
    by code_simp
  show "parse_bloco (ustr ''p1: Why?\<newline>  a) One\<newline>b) Two  \<newline>g:  b'') =
     parse_bloco (ustr ''P1: Why?\<newline>  A) One\<newline>B) Two  \<newline>G:  B'')"
    by (rule mp[OF conjunct1[OF marker_case_invariance] h1])
  have h2: "canon_linhas False (splitlines (strip_nl (ustr ''p1: Why?\<newline>  A) One\<newline>b) Two  \<newline>G:  b''))) =
      canon_linhas False (splitlines (strip_nl (ustr ''P1: Why?\<newline>  a) One\<newline>B) Two  \<newline>g:  B'')))"
    by code_simp
  show "parse_bloco (ustr ''p1: Why?\<newline>  A) One\<newline>b) Two  \<newline>G:  b'') =
     parse_bloco (ustr ''P1: Why?\<newline>  a) One\<newline>B) Two  \<newline>g:  B'')"
    by (rule mp[OF conjunct2[OF marker_case_invariance] h2])
  show "parse_bloco (ustr ''P1: Why?\<newline>  A) One\<newline>B) Two  \<newline>G:  B'') =
     Inr [\<lparr>title = ustr ''Why?'', alternativas = [ustr ''One'', ustr ''Two''], correta_idx = 1\<rparr>]"
    by code_simp
qed

theorem dotless_i_counterexample:
  "is_letter 305 \<and> upper [305] = ustr ''I'' \<and>
   parse_bloco (ustr ''P1: Q\<newline>I) x\<newline>B) y\<newline>G: I'') =
     Inr [\<lparr>title = ustr ''Q'', alternativas = [ustr ''x'', ustr ''y''], correta_idx = 0\<rparr>] \<and>
   parse_bloco (ustr ''P1: Q\<newline>I) x\<newline>B) y\<newline>G: '' @ [305]) =
     Inl (AnswerKeyMismatch (ustr ''I'') (ustr ''Q''))"
  by code_simp

end
